theory Spec2Isabelle
  imports Complex_Main "HOL-Library.Word"
begin

unbundle bit_operations_syntax

section \<open>Types and constants shared by the renderer and the texture cache\<close>

type_synonym u8 = "8 word"
type_synonym u16 = "16 word"
type_synonym u32 = "32 word"

text \<open>
  The enumerations below are declared in \<^verbatim>\<open>gpu_types.h\<close>, which is not among the
  sources. Their members are the names the sources use: the array \<^verbatim>\<open>texture_modes\<close> of
  \<^verbatim>\<open>SourceToString\<close> lists the first four texture modes in register order, and
  \<^verbatim>\<open>BatchConfig\<close> uses \<^verbatim>\<open>Disabled\<close> of both enumerations. The transparency modes are
  the four blend equations of the specification plus \<^verbatim>\<open>Disabled\<close>.
\<close>

datatype GPUTextureMode =
  Palette4Bit | Palette8Bit | Direct16Bit | Reserved_Direct16Bit | Disabled

datatype GPUTransparencyMode =
  HalfBackgroundPlusHalfForeground | BackgroundPlusForeground | BackgroundMinusForeground |
  BackgroundPlusQuarterForeground | Disabled

text \<open>\<^verbatim>\<open>static_cast<u8>(mode)\<close>: the register value of a texture mode.\<close>

fun mode_u8 :: "GPUTextureMode \<Rightarrow> nat" where
  "mode_u8 Palette4Bit = 0"
| "mode_u8 Palette8Bit = 1"
| "mode_u8 Direct16Bit = 2"
| "mode_u8 Reserved_Direct16Bit = 3"
| "mode_u8 GPUTextureMode.Disabled = 4"

section \<open>Batch configuration (gpu\_hw.h)\<close>

datatype BatchRenderMode =
  TransparencyDisabled | TransparentAndOpaque | OnlyOpaque | OnlyTransparent

record BatchConfig =
  texture_mode :: GPUTextureMode
  transparency_mode :: GPUTransparencyMode
  dithering :: bool
  interlacing :: bool
  set_mask_while_drawing :: bool
  check_mask_before_draw :: bool
  use_depth_buffer :: bool

text \<open>\<^verbatim>\<open>BatchConfig::GetRenderMode\<close>.\<close>

definition GetRenderMode :: "BatchConfig \<Rightarrow> BatchRenderMode" where
  "GetRenderMode b =
     (if transparency_mode b = GPUTransparencyMode.Disabled then TransparencyDisabled
      else TransparentAndOpaque)"

text \<open>
  \<^verbatim>\<open>GPU_HW::NeedsTwoPassRendering\<close>, reading the members \<^verbatim>\<open>m_batch\<close> and
  \<^verbatim>\<open>m_supports_dual_source_blend\<close>.
\<close>

definition NeedsTwoPassRendering :: "bool \<Rightarrow> BatchConfig \<Rightarrow> bool" where
  "NeedsTwoPassRendering m_supports_dual_source_blend m_batch =
     (texture_mode m_batch \<noteq> GPUTextureMode.Disabled \<and>
      (transparency_mode m_batch = BackgroundMinusForeground \<or>
       (\<not> m_supports_dual_source_blend \<and> transparency_mode m_batch \<noteq> GPUTransparencyMode.Disabled)))"

text \<open>
  Modelled from the spec: the draw-issuing part of \<^verbatim>\<open>GPU_HW::FlushRender\<close> lives in
  \<^verbatim>\<open>gpu_hw.cpp\<close>, which is not among the sources. The specification's two-pass rule: a
  batch that needs two passes is drawn once restricted to opaque texels and once
  restricted to blended texels (\<^verbatim>\<open>OnlyOpaque\<close> then \<^verbatim>\<open>OnlyTransparent\<close>); any other
  batch is drawn once with its resolved render mode. The result is the list of render
  modes of the draws issued, in order.
\<close>

definition FlushRender_draws :: "bool \<Rightarrow> BatchConfig \<Rightarrow> BatchRenderMode list" where
  "FlushRender_draws m_supports_dual_source_blend m_batch =
     (if NeedsTwoPassRendering m_supports_dual_source_blend m_batch
      then [OnlyOpaque, OnlyTransparent]
      else [GetRenderMode m_batch])"

section \<open>The depth of mask-bit emulation (gpu\_hw.h)\<close>

text \<open>
  The type \<^verbatim>\<open>float\<close> is IEEE 754 binary32: 24 bits of precision and an exponent between
  -126 and 127, and every operation gives the float nearest to its exact result, a tie
  going to the float with the even significand. The exponent of a real number \<open>x\<close> is
  the greatest \<open>e\<close> of that range with \<open>2 ^ e \<le> \<bar>x\<bar>\<close>, found by searching downwards from
  127, and -126 for the smaller numbers (there the floats are the subnormal ones); the
  floats around \<open>x\<close> are the multiples of \<open>2 ^ (e - 23)\<close>. Overflow to infinity, for
  results of magnitude \<open>2 ^ 128\<close> and more, is left out: the operations of
  \<^verbatim>\<open>GetCurrentNormalizedVertexDepth\<close> stay below \<open>2 ^ 32\<close>.
\<close>

fun exp_down :: "nat \<Rightarrow> int \<Rightarrow> real \<Rightarrow> int" where
  "exp_down 0 e x = e"
| "exp_down (Suc n) e x = (if 2 powi e \<le> x then e else exp_down n (e - 1) x)"

definition exponent32 :: "real \<Rightarrow> int" where
  "exponent32 x = exp_down 253 127 \<bar>x\<bar>"

definition round_half_even :: "real \<Rightarrow> int" where
  "round_half_even q =
     (let f = \<lfloor>q\<rfloor>; r = q - of_int f
      in if r < 1 / 2 then f else if 1 / 2 < r then f + 1 else if even f then f else f + 1)"

definition binary32 :: "real \<Rightarrow> real" where
  "binary32 x =
     (let u = 2 powi (exponent32 x - 23)
      in of_int (round_half_even (x / u)) * u)"

text \<open>
  \<^verbatim>\<open>GPU_HW::GetCurrentNormalizedVertexDepth\<close>, reading the member
  \<^verbatim>\<open>m_current_depth\<close>, a signed 32-bit integer: the conversion to \<^verbatim>\<open>float\<close>, the
  division and the subtraction each round. The literals \<^verbatim>\<open>1.0f\<close> and \<^verbatim>\<open>65535.0f\<close>
  are floats.
\<close>

definition GetCurrentNormalizedVertexDepth :: "32 word \<Rightarrow> real" where
  "GetCurrentNormalizedVertexDepth m_current_depth =
     binary32 (1 - binary32 (binary32 (of_int (sint m_current_depth)) / 65535))"

section \<open>Video memory and texture decoding (gpu\_hw\_texture\_cache.cpp)\<close>

text \<open>
  Modelled from the spec: the dimensions of video memory and of a texture page are
  declared in \<^verbatim>\<open>gpu_types.h\<close>, which is not among the sources. The specification has
  32 pages of 64 by 256 pixels, and a texture page as wide as four video-memory pages in
  16-bit mode and one page high; the header's \<^verbatim>\<open>VRAM_PAGES_WIDE\<close> and
  \<^verbatim>\<open>VRAM_PAGES_HIGH\<close> then give 16 by 2 pages for a video memory of 1024 by 512 pixels.
\<close>

definition VRAM_WIDTH :: u32 where "VRAM_WIDTH = 1024"
definition VRAM_HEIGHT :: u32 where "VRAM_HEIGHT = 512"
definition TEXTURE_PAGE_WIDTH :: u32 where "TEXTURE_PAGE_WIDTH = 256"
definition TEXTURE_PAGE_HEIGHT :: u32 where "TEXTURE_PAGE_HEIGHT = 256"

text \<open>The constants of \<^verbatim>\<open>GPUTextureCache\<close> (gpu\_hw\_texture\_cache.h).\<close>

definition VRAM_PAGE_WIDTH :: u32 where "VRAM_PAGE_WIDTH = 64"
definition VRAM_PAGE_HEIGHT :: u32 where "VRAM_PAGE_HEIGHT = 256"
definition VRAM_PAGES_WIDE :: u32 where "VRAM_PAGES_WIDE = VRAM_WIDTH div VRAM_PAGE_WIDTH"
definition VRAM_PAGES_HIGH :: u32 where "VRAM_PAGES_HIGH = VRAM_HEIGHT div VRAM_PAGE_HEIGHT"
definition NUM_PAGES :: u32 where "NUM_PAGES = VRAM_PAGES_WIDE * VRAM_PAGES_HIGH"
definition MAX_PAGE_REFS_PER_SOURCE :: nat where "MAX_PAGE_REFS_PER_SOURCE = 6"

definition PageIndex :: "u32 \<Rightarrow> u32 \<Rightarrow> u32" where
  "PageIndex px py = (py * VRAM_PAGES_WIDE) + px"

definition VRAMCoordinateToPage :: "u32 \<Rightarrow> u32 \<Rightarrow> u32" where
  "VRAMCoordinateToPage x y = PageIndex (x div VRAM_PAGE_WIDTH) (y div VRAM_PAGE_HEIGHT)"

definition PageStartX :: "u32 \<Rightarrow> u32" where
  "PageStartX pn = (pn mod VRAM_PAGES_WIDE) * VRAM_PAGE_WIDTH"

definition PageStartY :: "u32 \<Rightarrow> u32" where
  "PageStartY pn = (pn div VRAM_PAGES_WIDE) * VRAM_PAGE_HEIGHT"

text \<open>
  What the sources use of \<^verbatim>\<open>gpu_types.h\<close> and \<^verbatim>\<open>common/assert.h\<close> without
  defining it is a parameter of the model: the accessors of the palette register
  (\<^verbatim>\<open>GetXBase\<close>, \<^verbatim>\<open>GetYBase\<close>, \<^verbatim>\<open>GetWidth\<close>), the colour conversion
  \<^verbatim>\<open>VRAMRGBA5551ToRGBA8888\<close>, and whether \<^verbatim>\<open>DebugAssert\<close> is compiled in.
\<close>

record gpu_types =
  GetXBase :: "u16 \<Rightarrow> u32"
  GetYBase :: "u16 \<Rightarrow> u32"
  GetWidth :: "GPUTextureMode \<Rightarrow> u32"
  VRAMRGBA5551ToRGBA8888 :: "u16 \<Rightarrow> u32"
  debug_build :: bool

text \<open>
  Every way the C++ can leave its defined behaviour is a value: a failed
  \<^verbatim>\<open>DebugAssert\<close>, an index outside an array, a null or dangling pointer, a read
  outside \<^verbatim>\<open>g_vram\<close>, an unreachable switch case.
\<close>

datatype fault =
  AssertionFailed | IndexOutOfRange | NullPointer | DanglingPointer | VRAMOutOfRange |
  UnreachableCase

text \<open>
  \<^verbatim>\<open>g_vram\<close> is a fixed array of \<^verbatim>\<open>VRAM_WIDTH * VRAM_HEIGHT\<close> pixels; a pointer into
  it is its index, and a read is checked against the array's size.
\<close>

definition vram_read :: "(nat \<Rightarrow> u16) \<Rightarrow> nat \<Rightarrow> fault + u16" where
  "vram_read g_vram i =
     (if i < unat VRAM_WIDTH * unat VRAM_HEIGHT then Inr (g_vram i) else Inl VRAMOutOfRange)"

text \<open>\<^verbatim>\<open>const u32 pp = *(page_ptr++)\<close>: the source word, widened to 32 bits.\<close>

definition read_pp :: "(nat \<Rightarrow> u16) \<Rightarrow> nat \<Rightarrow> fault + u32" where
  "read_pp g_vram page_ptr =
     (case vram_read g_vram page_ptr of Inl e \<Rightarrow> Inl e | Inr w \<Rightarrow> Inr (ucast w))"

text \<open>
  A counting loop whose iterations each append texels to the destination:
  \<^verbatim>\<open>for (u32 i = 0; i < n; i++) body(i)\<close>, stopping at the first fault.
\<close>

primrec for_each :: "nat \<Rightarrow> (nat \<Rightarrow> fault + 'a list) \<Rightarrow> fault + 'a list" where
  "for_each 0 body = Inr []"
| "for_each (Suc n) body =
     (case for_each n body of
        Inl e \<Rightarrow> Inl e
      | Inr acc \<Rightarrow> (case body n of Inl e \<Rightarrow> Inl e | Inr out \<Rightarrow> Inr (acc @ out)))"

text \<open>
  One step of the inner loop of \<^verbatim>\<open>DecodeTexture4\<close>: the source word at
  \<^verbatim>\<open>page_ptr\<close> and the four texels it yields, low nibble first.
\<close>

definition DecodeTexture4_word ::
  "gpu_types \<Rightarrow> (nat \<Rightarrow> u16) \<Rightarrow> nat \<Rightarrow> nat \<Rightarrow> fault + u32 list" where
  "DecodeTexture4_word gt g_vram page_ptr palette =
     (case read_pp g_vram page_ptr of
        Inl e \<Rightarrow> Inl e
      | Inr pp \<Rightarrow>
         (case vram_read g_vram (palette + unat (pp AND 0x0F)) of
            Inl e \<Rightarrow> Inl e
          | Inr c0 \<Rightarrow>
         (case vram_read g_vram (palette + unat (drop_bit 4 pp AND 0x0F)) of
            Inl e \<Rightarrow> Inl e
          | Inr c1 \<Rightarrow>
         (case vram_read g_vram (palette + unat (drop_bit 8 pp AND 0x0F)) of
            Inl e \<Rightarrow> Inl e
          | Inr c2 \<Rightarrow>
         (case vram_read g_vram (palette + unat (drop_bit 12 pp)) of
            Inl e \<Rightarrow> Inl e
          | Inr c3 \<Rightarrow>
             Inr [VRAMRGBA5551ToRGBA8888 gt c0, VRAMRGBA5551ToRGBA8888 gt c1,
                  VRAMRGBA5551ToRGBA8888 gt c2, VRAMRGBA5551ToRGBA8888 gt c3])))))"

definition DecodeTexture8_word ::
  "gpu_types \<Rightarrow> (nat \<Rightarrow> u16) \<Rightarrow> nat \<Rightarrow> nat \<Rightarrow> fault + u32 list" where
  "DecodeTexture8_word gt g_vram page_ptr palette =
     (case read_pp g_vram page_ptr of
        Inl e \<Rightarrow> Inl e
      | Inr pp \<Rightarrow>
         (case vram_read g_vram (palette + unat (pp AND 0xFF)) of
            Inl e \<Rightarrow> Inl e
          | Inr c0 \<Rightarrow>
         (case vram_read g_vram (palette + unat (drop_bit 8 pp)) of
            Inl e \<Rightarrow> Inl e
          | Inr c1 \<Rightarrow>
             Inr [VRAMRGBA5551ToRGBA8888 gt c0, VRAMRGBA5551ToRGBA8888 gt c1])))"

definition DecodeTexture16_word ::
  "gpu_types \<Rightarrow> (nat \<Rightarrow> u16) \<Rightarrow> nat \<Rightarrow> fault + u32 list" where
  "DecodeTexture16_word gt g_vram page_ptr =
     (case vram_read g_vram page_ptr of
        Inl e \<Rightarrow> Inl e
      | Inr c \<Rightarrow> Inr [VRAMRGBA5551ToRGBA8888 gt c])"

text \<open>
  The destination is the list of its \<^verbatim>\<open>TEXTURE_PAGE_HEIGHT\<close> rows. In row \<open>y\<close>
  the source pointer is \<^verbatim>\<open>page + y * VRAM_WIDTH\<close> (\<^verbatim>\<open>page += VRAM_WIDTH\<close> after each
  row), and step \<open>x\<close> of the inner loop reads at \<^verbatim>\<open>page_ptr + x\<close>
  (\<^verbatim>\<open>*(page_ptr++)\<close>).
\<close>

definition one_row :: "fault + 'a list \<Rightarrow> fault + 'a list list" where
  "one_row r = (case r of Inl e \<Rightarrow> Inl e | Inr row \<Rightarrow> Inr [row])"

definition DecodeTexture4 ::
  "gpu_types \<Rightarrow> (nat \<Rightarrow> u16) \<Rightarrow> nat \<Rightarrow> nat \<Rightarrow> fault + u32 list list" where
  "DecodeTexture4 gt g_vram page palette =
     for_each (unat TEXTURE_PAGE_HEIGHT) (\<lambda>y.
       one_row (for_each (unat (TEXTURE_PAGE_WIDTH div 4)) (\<lambda>x.
         DecodeTexture4_word gt g_vram (page + y * unat VRAM_WIDTH + x) palette)))"

definition DecodeTexture8 ::
  "gpu_types \<Rightarrow> (nat \<Rightarrow> u16) \<Rightarrow> nat \<Rightarrow> nat \<Rightarrow> fault + u32 list list" where
  "DecodeTexture8 gt g_vram page palette =
     for_each (unat TEXTURE_PAGE_HEIGHT) (\<lambda>y.
       one_row (for_each (unat (TEXTURE_PAGE_WIDTH div 2)) (\<lambda>x.
         DecodeTexture8_word gt g_vram (page + y * unat VRAM_WIDTH + x) palette)))"

definition DecodeTexture16 ::
  "gpu_types \<Rightarrow> (nat \<Rightarrow> u16) \<Rightarrow> nat \<Rightarrow> fault + u32 list list" where
  "DecodeTexture16 gt g_vram page =
     for_each (unat TEXTURE_PAGE_HEIGHT) (\<lambda>y.
       one_row (for_each (unat TEXTURE_PAGE_WIDTH) (\<lambda>x.
         DecodeTexture16_word gt g_vram (page + y * unat VRAM_WIDTH + x))))"

text \<open>\<^verbatim>\<open>VRAMPagePointer\<close>: the index in \<^verbatim>\<open>g_vram\<close> of the first pixel of a page.\<close>

definition VRAMPagePointer :: "u32 \<Rightarrow> nat" where
  "VRAMPagePointer pn = unat (PageStartY pn * VRAM_WIDTH + PageStartX pn)"

text \<open>The index in \<^verbatim>\<open>g_vram\<close> of the first palette entry.\<close>

definition palette_pointer :: "gpu_types \<Rightarrow> u16 \<Rightarrow> nat" where
  "palette_pointer gt palette = unat (GetYBase gt palette * VRAM_WIDTH + GetXBase gt palette)"

text \<open>\<^verbatim>\<open>DecodeTexture(page, palette, mode, dest, dest_stride)\<close>.\<close>

fun DecodeTexture ::
  "gpu_types \<Rightarrow> (nat \<Rightarrow> u16) \<Rightarrow> u8 \<Rightarrow> u16 \<Rightarrow> GPUTextureMode \<Rightarrow> fault + u32 list list" where
  "DecodeTexture gt g_vram page palette Palette4Bit =
     DecodeTexture4 gt g_vram (VRAMPagePointer (ucast page)) (palette_pointer gt palette)"
| "DecodeTexture gt g_vram page palette Palette8Bit =
     DecodeTexture8 gt g_vram (VRAMPagePointer (ucast page)) (palette_pointer gt palette)"
| "DecodeTexture gt g_vram page palette Direct16Bit =
     DecodeTexture16 gt g_vram (VRAMPagePointer (ucast page))"
| "DecodeTexture gt g_vram page palette Reserved_Direct16Bit =
     DecodeTexture16 gt g_vram (VRAMPagePointer (ucast page))"
| "DecodeTexture gt g_vram page palette GPUTextureMode.Disabled = Inl UnreachableCase"

section \<open>The texture cache: data (gpu\_hw\_texture\_cache.h)\<close>

text \<open>
  \<^verbatim>\<open>SourceKey\<close>: four bytes, compared bytewise by \<^verbatim>\<open>operator==\<close>, so two keys are
  equal exactly when the three fields are. The palette register is its 16 bits.
\<close>

record SourceKey =
  page :: u8
  mode :: GPUTextureMode
  palette :: u16

text \<open>
  Pointers. A \<^verbatim>\<open>Source*\<close> is the address \<^verbatim>\<open>new\<close> returned; a
  \<^verbatim>\<open>SourceListNode*\<close> points into the array \<^verbatim>\<open>page_refs\<close> of a Source and is the pair
  of that Source's address and the index; a \<^verbatim>\<open>SourceList*\<close> points into
  \<^verbatim>\<open>m_page_sources\<close> and is the page number. \<open>None\<close> is the null pointer.
  The fields \<^verbatim>\<open>ref\<close>, \<^verbatim>\<open>list\<close>, \<^verbatim>\<open>prev\<close> and \<^verbatim>\<open>next\<close> of a node carry the prefix
  \<open>node_\<close>, since \<open>next\<close> is a keyword of the proof language.
\<close>

type_synonym source_ptr = nat
type_synonym node_ptr = "nat \<times> nat"

record SourceListNode =
  node_ref :: "source_ptr option"
  node_list :: "nat option"
  node_prev :: "node_ptr option"
  node_next :: "node_ptr option"

record SourceList =
  head :: "node_ptr option"
  tail :: "node_ptr option"

text \<open>A texture of the device, with the texels last written to it.\<close>

record GPUTexture =
  texture_id :: nat
  pixels :: "u32 list list"

record Source =
  key :: SourceKey
  num_page_refs :: nat
  texture :: GPUTexture
  page_refs :: "nat \<Rightarrow> SourceListNode"

text \<open>
  The state the cache works on: its member \<^verbatim>\<open>m_page_sources\<close>; the Sources on the C++
  heap, by address (\<open>None\<close> where no Source lives); the next address \<^verbatim>\<open>new\<close> hands
  out (addresses are not reused, so an address names one Source object for good); and
  the textures given back to the device by \<^verbatim>\<open>RecycleTexture\<close>. The arrays
  \<^verbatim>\<open>m_page_sources\<close> and \<^verbatim>\<open>page_refs\<close> are functions of the index, and every access
  checks the index against the array's size.
\<close>

record cache_state =
  m_page_sources :: "nat \<Rightarrow> SourceList"
  sources :: "source_ptr \<Rightarrow> Source option"
  next_source :: source_ptr
  recycled :: "GPUTexture list"

text \<open>
  \<^verbatim>\<open>m_page_sources = {}\<close>: a new cache has every list empty; no Source is allocated.
\<close>

definition empty_cache :: cache_state where
  "empty_cache =
     \<lparr>m_page_sources = (\<lambda>_. \<lparr>head = None, tail = None\<rparr>),
      sources = (\<lambda>_. None), next_source = 0, recycled = []\<rparr>"

text \<open>
  A call either returns a value, or leaves defined behaviour with a fault, or does not
  return: \<open>Some (Inr v)\<close>, \<open>Some (Inl e)\<close> and \<open>None\<close>. Functions without a
  pointer-chasing loop always return or fault, and have the type \<open>fault + 'a\<close>.
\<close>

type_synonym 'a outcome = "(fault + 'a) option"

definition bindE :: "fault + 'a \<Rightarrow> ('a \<Rightarrow> fault + 'b) \<Rightarrow> fault + 'b" where
  "bindE r f = (case r of Inl e \<Rightarrow> Inl e | Inr v \<Rightarrow> f v)"

definition bindO :: "'a outcome \<Rightarrow> ('a \<Rightarrow> 'b outcome) \<Rightarrow> 'b outcome" where
  "bindO r f = (case r of None \<Rightarrow> None | Some (Inl e) \<Rightarrow> Some (Inl e) | Some (Inr v) \<Rightarrow> f v)"

subsection \<open>Dereferencing\<close>

definition get_source :: "cache_state \<Rightarrow> source_ptr \<Rightarrow> fault + Source" where
  "get_source s p = (case sources s p of None \<Rightarrow> Inl DanglingPointer | Some src \<Rightarrow> Inr src)"

definition get_node :: "cache_state \<Rightarrow> node_ptr \<Rightarrow> fault + SourceListNode" where
  "get_node s n =
     (case sources s (fst n) of
        None \<Rightarrow> Inl DanglingPointer
      | Some src \<Rightarrow>
          if snd n < MAX_PAGE_REFS_PER_SOURCE then Inr (page_refs src (snd n))
          else Inl IndexOutOfRange)"

definition set_node ::
  "node_ptr \<Rightarrow> (SourceListNode \<Rightarrow> SourceListNode) \<Rightarrow> cache_state \<Rightarrow> fault + cache_state" where
  "set_node n f s =
     (case sources s (fst n) of
        None \<Rightarrow> Inl DanglingPointer
      | Some src \<Rightarrow>
          if snd n < MAX_PAGE_REFS_PER_SOURCE
          then Inr (s\<lparr>sources := (sources s)
                 (fst n \<mapsto> src\<lparr>page_refs := (page_refs src)(snd n := f (page_refs src (snd n)))\<rparr>)\<rparr>)
          else Inl IndexOutOfRange)"

definition get_list :: "cache_state \<Rightarrow> nat \<Rightarrow> fault + SourceList" where
  "get_list s pn =
     (if pn < unat NUM_PAGES then Inr (m_page_sources s pn) else Inl IndexOutOfRange)"

definition set_list ::
  "nat \<Rightarrow> (SourceList \<Rightarrow> SourceList) \<Rightarrow> cache_state \<Rightarrow> fault + cache_state" where
  "set_list pn f s =
     (if pn < unat NUM_PAGES
      then Inr (s\<lparr>m_page_sources := (m_page_sources s)(pn := f (m_page_sources s pn))\<rparr>)
      else Inl IndexOutOfRange)"

section \<open>The texture cache: operations (gpu\_hw\_texture\_cache.cpp)\<close>

text \<open>\<^verbatim>\<open>ListAppend(list, item, item_node)\<close>.\<close>

definition ListAppend :: "nat \<Rightarrow> source_ptr \<Rightarrow> node_ptr \<Rightarrow> cache_state \<Rightarrow> fault + cache_state" where
  "ListAppend list item item_node s =
     bindE (set_node item_node
              (\<lambda>n. n\<lparr>node_ref := Some item, node_list := Some list, node_next := None\<rparr>) s) (\<lambda>s.
     bindE (get_list s list) (\<lambda>l.
       case tail l of
         Some t \<Rightarrow>
           bindE (set_node item_node (\<lambda>n. n\<lparr>node_prev := Some t\<rparr>) s) (\<lambda>s.
           bindE (set_node t (\<lambda>n. n\<lparr>node_next := Some item_node\<rparr>) s) (\<lambda>s.
           set_list list (\<lambda>l. l\<lparr>tail := Some item_node\<rparr>) s))
       | None \<Rightarrow>
           bindE (set_node item_node (\<lambda>n. n\<lparr>node_prev := None\<rparr>) s) (\<lambda>s.
           set_list list (\<lambda>l. l\<lparr>head := Some item_node, tail := Some item_node\<rparr>) s)))"

text \<open>
  \<^verbatim>\<open>ListUnlink(node)\<close>. The node is passed by reference, so the second statement reads
  it again after the first has written.
\<close>

definition ListUnlink :: "node_ptr \<Rightarrow> cache_state \<Rightarrow> fault + cache_state" where
  "ListUnlink node s =
     bindE (get_node s node) (\<lambda>n.
     bindE (case node_prev n of
              Some p \<Rightarrow> set_node p (\<lambda>m. m\<lparr>node_next := node_next n\<rparr>) s
            | None \<Rightarrow>
                (case node_list n of
                   None \<Rightarrow> Inl NullPointer
                 | Some l \<Rightarrow> set_list l (\<lambda>x. x\<lparr>head := node_next n\<rparr>) s)) (\<lambda>s.
     bindE (get_node s node) (\<lambda>n.
       case node_next n of
         Some q \<Rightarrow> set_node q (\<lambda>m. m\<lparr>node_prev := node_prev n\<rparr>) s
       | None \<Rightarrow>
           (case node_list n of
              None \<Rightarrow> Inl NullPointer
            | Some l \<Rightarrow> set_list l (\<lambda>x. x\<lparr>tail := node_prev n\<rparr>) s))))"

text \<open>\<^verbatim>\<open>WidthForMode\<close>; the comparison of modes is that of their register values.\<close>

definition WidthForMode :: "GPUTextureMode \<Rightarrow> u32" where
  "WidthForMode m =
     drop_bit (if mode_u8 m < mode_u8 Direct16Bit then 2 - mode_u8 m else 0) TEXTURE_PAGE_WIDTH"

text \<open>
  \<^verbatim>\<open>LoopPages(x, y, width, height, f)\<close>. The inner loop passes \<^verbatim>\<open>page_number\<close> to
  \<^verbatim>\<open>f\<close> and increments \<^verbatim>\<open>y_page_number\<close>, as the source does. The loop counters are
  quotients by the page dimensions, hence below \<open>2 ^ 26\<close>: incrementing them never wraps,
  and they are natural numbers here. \<^verbatim>\<open>page_number\<close> stays a 32-bit value.
\<close>

function LoopPages_x ::
  "(u32 \<Rightarrow> 's \<Rightarrow> 's outcome) \<Rightarrow> u32 \<Rightarrow> u32 \<Rightarrow> nat \<Rightarrow> nat \<Rightarrow> 's \<Rightarrow> 's outcome" where
  "LoopPages_x f page_number y_page_number page_x end_x s =
     (if page_x \<le> end_x
      then (case f page_number s of
              None \<Rightarrow> None
            | Some (Inl e) \<Rightarrow> Some (Inl e)
            | Some (Inr s') \<Rightarrow>
                LoopPages_x f page_number (y_page_number + 1) (Suc page_x) end_x s')
      else Some (Inr s))"
  by pat_completeness auto
termination
  by (relation "measure (\<lambda>(f, page_number, y_page_number, page_x, end_x, s). Suc end_x - page_x)")
    auto

function LoopPages_y ::
  "(u32 \<Rightarrow> 's \<Rightarrow> 's outcome) \<Rightarrow> u32 \<Rightarrow> nat \<Rightarrow> nat \<Rightarrow> nat \<Rightarrow> nat \<Rightarrow> 's \<Rightarrow> 's outcome" where
  "LoopPages_y f page_number page_y end_y start_x end_x s =
     (if page_y \<le> end_y
      then (case LoopPages_x f page_number page_number start_x end_x s of
              None \<Rightarrow> None
            | Some (Inl e) \<Rightarrow> Some (Inl e)
            | Some (Inr s') \<Rightarrow>
                LoopPages_y f (page_number + VRAM_PAGES_WIDE) (Suc page_y) end_y start_x end_x s')
      else Some (Inr s))"
  by pat_completeness auto
termination
  by (relation "measure (\<lambda>(f, page_number, page_y, end_y, start_x, end_x, s). Suc end_y - page_y)")
    auto

definition LoopPages ::
  "gpu_types \<Rightarrow> u32 \<Rightarrow> u32 \<Rightarrow> u32 \<Rightarrow> u32 \<Rightarrow> (u32 \<Rightarrow> 's \<Rightarrow> 's outcome) \<Rightarrow> 's \<Rightarrow> 's outcome" where
  "LoopPages gt x y width height f s =
     (if debug_build gt \<and> \<not> (width > 0 \<and> height > 0) then Some (Inl AssertionFailed)
      else if debug_build gt \<and> \<not> ((x + width) \<le> VRAM_WIDTH \<and> (y + height) \<le> VRAM_HEIGHT)
      then Some (Inl AssertionFailed)
      else
        let start_x = x div VRAM_PAGE_WIDTH;
            start_y = y div VRAM_PAGE_HEIGHT;
            end_x = (x + (width - 1)) div VRAM_PAGE_WIDTH;
            end_y = (y + (height - 1)) div VRAM_PAGE_HEIGHT
        in LoopPages_y f (PageIndex start_x start_y) (unat start_y) (unat end_y)
             (unat start_x) (unat end_x) s)"

text \<open>
  The loop of \<^verbatim>\<open>InvalidatePage\<close> over the nodes of a page's list: \<^verbatim>\<open>src = n->ref\<close>,
  \<^verbatim>\<open>n = n->next\<close>, then every page reference of \<^verbatim>\<open>src\<close> is unlinked, its texture goes
  back to the device and \<^verbatim>\<open>src\<close> is deleted. (The log line has no effect on the state.)
\<close>

primrec for_range :: "nat \<Rightarrow> (nat \<Rightarrow> 's \<Rightarrow> fault + 's) \<Rightarrow> 's \<Rightarrow> fault + 's" where
  "for_range 0 body s = Inr s"
| "for_range (Suc n) body s = bindE (for_range n body s) (body n)"

definition unlink_and_delete :: "source_ptr \<Rightarrow> cache_state \<Rightarrow> fault + cache_state" where
  "unlink_and_delete src s =
     bindE (get_source s src) (\<lambda>obj.
     bindE (for_range (num_page_refs obj) (\<lambda>i. ListUnlink (src, i)) s) (\<lambda>s.
     bindE (get_source s src) (\<lambda>obj.
       Inr (s\<lparr>recycled := recycled s @ [texture obj], sources := (sources s)(src := None)\<rparr>))))"

partial_function (option) InvalidatePage_loop :: "node_ptr option \<Rightarrow> cache_state \<Rightarrow> cache_state outcome" where
  "InvalidatePage_loop n s =
     (case n of
        None \<Rightarrow> Some (Inr s)
      | Some np \<Rightarrow>
          (case get_node s np of
             Inl e \<Rightarrow> Some (Inl e)
           | Inr nd \<Rightarrow>
               (case node_ref nd of
                  None \<Rightarrow> Some (Inl NullPointer)
                | Some src \<Rightarrow>
                    (case unlink_and_delete src s of
                       Inl e \<Rightarrow> Some (Inl e)
                     | Inr s' \<Rightarrow> InvalidatePage_loop (node_next nd) s'))))"

text \<open>\<^verbatim>\<open>InvalidatePage(pn)\<close>.\<close>

definition InvalidatePage :: "gpu_types \<Rightarrow> u32 \<Rightarrow> cache_state \<Rightarrow> cache_state outcome" where
  "InvalidatePage gt pn s =
     (if debug_build gt \<and> \<not> pn < NUM_PAGES then Some (Inl AssertionFailed)
      else case get_list s (unat pn) of
             Inl e \<Rightarrow> Some (Inl e)
           | Inr ps \<Rightarrow>
               bindO (InvalidatePage_loop (head ps) s) (\<lambda>s.
                 Some (set_list (unat pn) (\<lambda>l. l\<lparr>head := None, tail := None\<rparr>) s)))"

text \<open>\<^verbatim>\<open>InvalidatePages(x, y, width, height)\<close>.\<close>

definition InvalidatePages ::
  "gpu_types \<Rightarrow> u32 \<Rightarrow> u32 \<Rightarrow> u32 \<Rightarrow> u32 \<Rightarrow> cache_state \<Rightarrow> cache_state outcome" where
  "InvalidatePages gt x y width height s =
     LoopPages gt x y width height (\<lambda>page. InvalidatePage gt page) s"

text \<open>
  \<^verbatim>\<open>Clear()\<close>: every page is invalidated in turn; a debug build then asserts that every
  list is empty.
\<close>

primrec Clear_loop :: "gpu_types \<Rightarrow> nat \<Rightarrow> cache_state \<Rightarrow> cache_state outcome" where
  "Clear_loop gt 0 s = Some (Inr s)"
| "Clear_loop gt (Suc i) s = bindO (Clear_loop gt i s) (InvalidatePage gt (of_nat i))"

definition Clear :: "gpu_types \<Rightarrow> cache_state \<Rightarrow> cache_state outcome" where
  "Clear gt s =
     bindO (Clear_loop gt (unat NUM_PAGES) s) (\<lambda>s.
       if debug_build gt \<and>
          \<not> (\<forall>i \<in> set [0 ..< unat NUM_PAGES].
                head (m_page_sources s i) = None \<and> tail (m_page_sources s i) = None)
       then Some (Inl AssertionFailed)
       else Some (Inr s))"

text \<open>
  The closure \<^verbatim>\<open>add_page_ref\<close> of \<^verbatim>\<open>CreateSource\<close>. It captures \<^verbatim>\<open>src\<close> and the local
  array \<^verbatim>\<open>page_refns\<close>, which is threaded through with the state; the array's entries
  below \<^verbatim>\<open>src->num_page_refs\<close> are the ones written so far, and only they are read.
\<close>

definition add_page_ref ::
  "source_ptr \<Rightarrow> u32 \<Rightarrow> cache_state \<times> u32 list \<Rightarrow> fault + cache_state \<times> u32 list" where
  "add_page_ref src pn st =
     (case st of (s, page_refns) \<Rightarrow>
        bindE (get_source s src) (\<lambda>obj.
          if pn \<in> set (take (num_page_refs obj) page_refns) then Inr (s, page_refns)
          else
            let ri = num_page_refs obj;
                s = s\<lparr>sources := (sources s)(src \<mapsto> obj\<lparr>num_page_refs := ri + 1\<rparr>)\<rparr>
            in if \<not> ri < MAX_PAGE_REFS_PER_SOURCE then Inl IndexOutOfRange
               else if \<not> pn < NUM_PAGES then Inl IndexOutOfRange
               else bindE (ListAppend (unat pn) src (src, ri) s) (\<lambda>s.
                      Inr (s, page_refns[ri := pn]))))"

text \<open>
  \<^verbatim>\<open>CreateSource(key)\<close>. \<open>fetched\<close> is what \<^verbatim>\<open>g_gpu_device->FetchTexture\<close> returns:
  a texture, or null when the allocation fails. \<^verbatim>\<open>new Source()\<close> zero-initialises the
  nodes. The result is the pointer returned (\<open>None\<close> for \<^verbatim>\<open>nullptr\<close>) and the state.
\<close>

definition null_node :: SourceListNode where
  "null_node = \<lparr>node_ref = None, node_list = None, node_prev = None, node_next = None\<rparr>"

definition CreateSource ::
  "gpu_types \<Rightarrow> (nat \<Rightarrow> u16) \<Rightarrow> GPUTexture option \<Rightarrow> SourceKey \<Rightarrow> cache_state \<Rightarrow>
     (source_ptr option \<times> cache_state) outcome" where
  "CreateSource gt g_vram fetched k s =
     (case fetched of
        None \<Rightarrow> Some (Inr (None, s))
      | Some tex \<Rightarrow>
          (case DecodeTexture gt g_vram (page k) (palette k) (mode k) of
             Inl e \<Rightarrow> Some (Inl e)
           | Inr texels \<Rightarrow>
               let src = next_source s;
                   s = s\<lparr>sources := (sources s)(src \<mapsto>
                           \<lparr>key = k, num_page_refs = 0, texture = tex\<lparr>pixels := texels\<rparr>,
                            page_refs = (\<lambda>_. null_node)\<rparr>),
                         next_source := Suc src\<rparr>
               in bindO (LoopPages gt (PageStartX (ucast (page k))) (PageStartY (ucast (page k)))
                           (WidthForMode (mode k)) TEXTURE_PAGE_HEIGHT
                           (\<lambda>pn st. Some (add_page_ref src pn st))
                           (s, replicate MAX_PAGE_REFS_PER_SOURCE 0)) (\<lambda>st.
                  bindO (if mode_u8 (mode k) < mode_u8 Direct16Bit
                         then LoopPages gt (GetXBase gt (palette k)) (GetYBase gt (palette k))
                                (GetWidth gt (mode k)) 1
                                (\<lambda>pn st. Some (add_page_ref src pn st)) st
                         else Some (Inr st)) (\<lambda>st.
                    Some (Inr (Some src, fst st))))))"

text \<open>The scan of \<^verbatim>\<open>LookupSource\<close> over the list of the key's page.\<close>

partial_function (option) LookupSource_loop ::
  "SourceKey \<Rightarrow> node_ptr option \<Rightarrow> cache_state \<Rightarrow> (source_ptr option) outcome" where
  "LookupSource_loop k n s =
     (case n of
        None \<Rightarrow> Some (Inr None)
      | Some np \<Rightarrow>
          (case get_node s np of
             Inl e \<Rightarrow> Some (Inl e)
           | Inr nd \<Rightarrow>
               (case node_ref nd of
                  None \<Rightarrow> Some (Inl NullPointer)
                | Some r \<Rightarrow>
                    (case get_source s r of
                       Inl e \<Rightarrow> Some (Inl e)
                     | Inr src \<Rightarrow>
                         if key src = k then Some (Inr (Some r))
                         else LookupSource_loop k (node_next nd) s))))"

text \<open>
  \<^verbatim>\<open>LookupSource(key)\<close>: the Source found in the list of the key's page, or the one
  \<^verbatim>\<open>CreateSource\<close> returns.
\<close>

definition LookupSource ::
  "gpu_types \<Rightarrow> (nat \<Rightarrow> u16) \<Rightarrow> GPUTexture option \<Rightarrow> SourceKey \<Rightarrow> cache_state \<Rightarrow>
     (source_ptr option \<times> cache_state) outcome" where
  "LookupSource gt g_vram fetched k s =
     (case get_list s (unat (page k)) of
        Inl e \<Rightarrow> Some (Inl e)
      | Inr l \<Rightarrow>
          bindO (LookupSource_loop k (head l) s) (\<lambda>found.
            case found of
              Some r \<Rightarrow> Some (Inr (Some r, s))
            | None \<Rightarrow> CreateSource gt g_vram fetched k s))"

section \<open>What the claims say, as definitions\<close>

text \<open>
  The texel the specification calls RGBA(r, g, b, a), as the 32-bit value of an
  \<^verbatim>\<open>RGBA8\<close> texture: red in the low byte, alpha in the high byte.
\<close>

definition RGBA :: "u32 \<Rightarrow> u32 \<Rightarrow> u32 \<Rightarrow> u32 \<Rightarrow> u32" where
  "RGBA r g b a = r OR push_bit 8 g OR push_bit 16 b OR push_bit 24 a"




text \<open>
  Where the claim on decoding places a page and a palette in video memory, as an index
  of its 1024 by 512 pixels taken row by row. Page \<open>pn\<close> is the tile in column
  \<open>pn mod 16\<close> and row \<open>pn div 16\<close> of the 16 by 2 tiles of 64 by 256 pixels; a
  palette starts at the pixel its register names.
\<close>

definition page_origin :: "nat \<Rightarrow> nat" where
  "page_origin pn = (pn div 16) * 256 * 1024 + (pn mod 16) * 64"

definition clut_origin :: "gpu_types \<Rightarrow> u16 \<Rightarrow> nat" where
  "clut_origin gt clut = unat (GetYBase gt clut) * 1024 + unat (GetXBase gt clut)"


text \<open>
  An instance of the parameters, used to evaluate the model at concrete inputs: the
  console's palette register (X base in bits 0 to 5, in units of 16 pixels; Y base in
  bits 6 to 14), palettes of 16 and 256 entries, a conversion that expands each 5-bit
  channel to 8 bits and the alpha bit to 0 or 255, and a release build.
\<close>

definition psx_types :: gpu_types where
  "psx_types =
     \<lparr>GetXBase = (\<lambda>bits. ucast (bits AND 0x3F) * 16),
      GetYBase = (\<lambda>bits. ucast (drop_bit 6 bits AND 0x1FF)),
      GetWidth = (\<lambda>mode. if mode = Palette4Bit then 16 else 256),
      VRAMRGBA5551ToRGBA8888 = (\<lambda>c.
         RGBA (drop_bit 6 (ucast (c AND 31) * 527 + 23))
              (drop_bit 6 (ucast (drop_bit 5 c AND 31) * 527 + 23))
              (drop_bit 6 (ucast (drop_bit 10 c AND 31) * 527 + 23))
              (if drop_bit 15 c \<noteq> 0 then 255 else 0)),
      debug_build = False\<rparr>"

text \<open>
  Two contents of video memory for the examples: every pixel 0, and every pixel 0 but
  pixel 16 of row 1, which holds 0x8000.
\<close>

definition zero_vram :: "nat \<Rightarrow> u16" where
  "zero_vram i = 0"

definition clut_vram :: "nat \<Rightarrow> u16" where
  "clut_vram i = (if i = 1040 then 0x8000 else 0)"

section \<open>What the claims say about pages, as definitions\<close>

text \<open>
  The covering set of pages of a rectangle of pixels, given by its top left corner, its
  width and its height: of the 32 pages, those whose tile meets the rectangle. The tile
  of page \<open>p\<close> is the 64 by 256 pixels with the top left corner
  \<open>(64 * (p mod 16), 256 * (p div 16))\<close>.
\<close>

definition tile_meets :: "nat \<Rightarrow> nat \<Rightarrow> nat \<Rightarrow> nat \<Rightarrow> nat \<Rightarrow> bool" where
  "tile_meets p x y width height \<longleftrightarrow>
     64 * (p mod 16) < x + width \<and> x < 64 * (p mod 16) + 64 \<and>
     256 * (p div 16) < y + height \<and> y < 256 * (p div 16) + 256"

definition covering_pages :: "nat \<Rightarrow> nat \<Rightarrow> nat \<Rightarrow> nat \<Rightarrow> nat list" where
  "covering_pages x y width height = filter (\<lambda>p. tile_meets p x y width height) [0 ..< 32]"

text \<open>
  The pages a key depends on: those covered by its pixel data, which starts at the top
  left corner of the tile of the key's page and is 64, 128 or 256 pixels wide by one page
  high, and for the palette modes those covered by its palette, which is one row of the
  palette's width at the pixel the palette register names.
\<close>

definition footprint_width :: "GPUTextureMode \<Rightarrow> nat" where
  "footprint_width m = (case m of Palette4Bit \<Rightarrow> 64 | Palette8Bit \<Rightarrow> 128 | _ \<Rightarrow> 256)"

definition footprint :: "gpu_types \<Rightarrow> SourceKey \<Rightarrow> nat set" where
  "footprint gt k =
     set (covering_pages (64 * (unat (page k) mod 16)) (256 * (unat (page k) div 16))
            (footprint_width (mode k)) 256) \<union>
     (if mode k = Palette4Bit \<or> mode k = Palette8Bit
      then set (covering_pages (unat (GetXBase gt (palette k))) (unat (GetYBase gt (palette k)))
                  (unat (GetWidth gt (mode k))) 1)
      else {})"

text \<open>
  What the claims on dependency pages take for granted of the palette register and of
  the palette widths, which \<^verbatim>\<open>gpu_types.h\<close> defines: the register names a pixel of video
  memory, and a palette has at least one entry.
\<close>

definition palettes_in_vram :: "gpu_types \<Rightarrow> bool" where
  "palettes_in_vram gt \<longleftrightarrow>
     (\<forall>p m. unat (GetXBase gt p) < 1024 \<and> unat (GetYBase gt p) < 512 \<and> 0 < unat (GetWidth gt m))"

text \<open>
  Two keys and a texture of the device for the examples: page 1 in 16-bit mode, and
  page 17 in 4-bit mode with the palette at pixel 16 of row 1.
\<close>

definition key1 :: SourceKey where
  "key1 = \<lparr>page = 1, mode = Direct16Bit, palette = 0\<rparr>"

definition key2 :: SourceKey where
  "key2 = \<lparr>page = 17, mode = Palette4Bit, palette = 65\<rparr>"

definition texture0 :: GPUTexture where
  "texture0 = \<lparr>texture_id = 0, pixels = []\<rparr>"

section \<open>Runs of the cache\<close>

text \<open>
  A loop that calls \<open>f\<close> on each element of a list in turn and stops at the first call
  that faults or does not return.
\<close>

primrec foldO :: "('c \<Rightarrow> 's \<Rightarrow> 's outcome) \<Rightarrow> 'c list \<Rightarrow> 's \<Rightarrow> 's outcome" where
  "foldO f [] s = Some (Inr s)"
| "foldO f (c # cs) s = bindO (f c s) (foldO f cs)"

text \<open>
  The public operations of the cache, each with what it reads from outside the cache: a
  lookup reads video memory and asks the device for a texture. A state of the cache is
  reachable when operations that returned lead to it from the new cache.
\<close>

datatype cache_op =
    OpLookupSource "nat \<Rightarrow> u16" "GPUTexture option" SourceKey
  | OpInvalidatePage u32
  | OpInvalidatePages u32 u32 u32 u32
  | OpClear

fun run_op :: "gpu_types \<Rightarrow> cache_op \<Rightarrow> cache_state \<Rightarrow> cache_state outcome" where
  "run_op gt (OpLookupSource g f k) s =
     bindO (LookupSource gt g f k s) (\<lambda>r. Some (Inr (snd r)))"
| "run_op gt (OpInvalidatePage pn) s = InvalidatePage gt pn s"
| "run_op gt (OpInvalidatePages x y w h) s = InvalidatePages gt x y w h s"
| "run_op gt OpClear s = Clear gt s"

definition run_ops :: "gpu_types \<Rightarrow> cache_op list \<Rightarrow> cache_state \<Rightarrow> cache_state outcome" where
  "run_ops gt ops s = foldO (run_op gt) ops s"

inductive reachable :: "gpu_types \<Rightarrow> cache_state \<Rightarrow> bool" for gt :: gpu_types where
  start: "reachable gt empty_cache"
| step: "reachable gt s \<Longrightarrow> run_op gt c s = Some (Inr s') \<Longrightarrow> reachable gt s'"

text \<open>
  An operation leaves a key alone when it is a lookup, or an invalidation of a page the
  key does not depend on, or an invalidation of a rectangle inside video memory whose
  covering set holds none of the pages the key depends on.
\<close>

fun quiet :: "gpu_types \<Rightarrow> SourceKey \<Rightarrow> cache_op \<Rightarrow> bool" where
  "quiet gt k (OpLookupSource g f k') = True"
| "quiet gt k (OpInvalidatePage pn) = (unat pn \<notin> footprint gt k)"
| "quiet gt k (OpInvalidatePages x y w h) =
     (0 < unat w \<and> 0 < unat h \<and> unat x + unat w \<le> 1024 \<and> unat y + unat h \<le> 512 \<and>
      set (covering_pages (unat x) (unat y) (unat w) (unat h)) \<inter> footprint gt k = {})"
| "quiet gt k OpClear = False"

section \<open>The shape of the lists\<close>

text \<open>
  The equations of the two loops of \<^verbatim>\<open>LoopPages\<close> are applied by hand. The calls the
  loops make, in order: in each row of pages the inner loop passes \<^verbatim>\<open>page_number\<close>,
  the first page of the row, once for every page of the row.
\<close>

declare LoopPages_x.simps [simp del]
declare LoopPages_y.simps [simp del]

definition LoopPages_calls :: "u32 \<Rightarrow> u32 \<Rightarrow> u32 \<Rightarrow> u32 \<Rightarrow> u32 list" where
  "LoopPages_calls x y width height =
     (let start_x = x div VRAM_PAGE_WIDTH;
          start_y = y div VRAM_PAGE_HEIGHT;
          end_x = (x + (width - 1)) div VRAM_PAGE_WIDTH;
          end_y = (y + (height - 1)) div VRAM_PAGE_HEIGHT
      in concat (map (\<lambda>j. replicate (Suc (unat end_x) - unat start_x)
                         (PageIndex start_x start_y + of_nat j * VRAM_PAGES_WIDE))
                   [0 ..< Suc (unat end_y) - unat start_y]))"

text \<open>
  The pages \<^verbatim>\<open>CreateSource\<close> passes to \<^verbatim>\<open>add_page_ref\<close> for a key, in order.
\<close>

definition page_calls :: "gpu_types \<Rightarrow> SourceKey \<Rightarrow> u32 list" where
  "page_calls gt k =
     LoopPages_calls (PageStartX (ucast (page k))) (PageStartY (ucast (page k)))
       (WidthForMode (mode k)) TEXTURE_PAGE_HEIGHT @
     (if mode_u8 (mode k) < mode_u8 Direct16Bit
      then LoopPages_calls (GetXBase gt (palette k)) (GetYBase gt (palette k))
             (GetWidth gt (mode k)) 1
      else [])"

text \<open>
  A segment of a doubly linked list: the nodes \<open>xs\<close> lead from the pointer \<open>c\<close> to
  the pointer \<open>d\<close> along \<^verbatim>\<open>next\<close>, and \<^verbatim>\<open>prev\<close> of each node is the node before it
  (\<open>p\<close> for the first).
\<close>

primrec seg ::
  "cache_state \<Rightarrow> node_ptr option \<Rightarrow> node_ptr option \<Rightarrow> node_ptr list \<Rightarrow> node_ptr option \<Rightarrow> bool" where
  "seg s p c [] d = (c = d)"
| "seg s p c (x # xs) d =
     (c = Some x \<and>
      (\<exists>nd. get_node s x = Inr nd \<and> node_prev nd = p \<and> seg s (Some x) (node_next nd) xs d))"

definition last_of :: "node_ptr option \<Rightarrow> node_ptr list \<Rightarrow> node_ptr option" where
  "last_of p xs = (if xs = [] then p else Some (last xs))"

definition first_of :: "node_ptr list \<Rightarrow> node_ptr option \<Rightarrow> node_ptr option" where
  "first_of xs d = (case xs of [] \<Rightarrow> d | x # _ \<Rightarrow> Some x)"

text \<open>
  The list of page \<open>pn\<close> holds exactly the nodes \<open>xs\<close>, in order; a node is linked
  into the list of page \<open>pn\<close> when it is a page reference in use of a live Source and
  its \<^verbatim>\<open>list\<close> and \<^verbatim>\<open>ref\<close> fields say so.
\<close>

definition list_is :: "cache_state \<Rightarrow> nat \<Rightarrow> node_ptr list \<Rightarrow> bool" where
  "list_is s pn xs \<longleftrightarrow>
     seg s None (head (m_page_sources s pn)) xs None \<and>
     tail (m_page_sources s pn) = last_of None xs"

definition linked :: "cache_state \<Rightarrow> nat \<Rightarrow> node_ptr \<Rightarrow> bool" where
  "linked s pn x \<longleftrightarrow>
     (\<exists>src. sources s (fst x) = Some src \<and> snd x < num_page_refs src \<and>
        node_list (page_refs src (snd x)) = Some pn \<and>
        node_ref (page_refs src (snd x)) = Some (fst x))"

text \<open>
  The representation invariant. \<open>L\<close> gives the nodes of every list; each Source has
  at most one node in a list; the nodes of the lists are linked; every Source has at
  most \<^verbatim>\<open>MAX_PAGE_REFS_PER_SOURCE\<close> page references, lives at an address already handed
  out, and each of its page references in use is in a list, or in the set \<open>U\<close> of the
  nodes that an operation under way has unlinked or not yet appended.
\<close>

definition well_formed :: "cache_state \<Rightarrow> (nat \<Rightarrow> node_ptr list) \<Rightarrow> node_ptr set \<Rightarrow> bool" where
  "well_formed s L U \<longleftrightarrow>
     (\<forall>pn < unat NUM_PAGES.
        list_is s pn (L pn) \<and> distinct (map fst (L pn)) \<and>
        (\<forall>x \<in> set (L pn). linked s pn x \<and> x \<notin> U)) \<and>
     (\<forall>p src. sources s p = Some src \<longrightarrow>
        num_page_refs src \<le> MAX_PAGE_REFS_PER_SOURCE \<and> p < next_source s \<and>
        (\<forall>i < num_page_refs src. (p, i) \<in> U \<or> (\<exists>pn < unat NUM_PAGES. (p, i) \<in> set (L pn))))"

text \<open>
  What the list operations leave unchanged of a Source: everything but the \<^verbatim>\<open>prev\<close>
  and \<^verbatim>\<open>next\<close> fields of its nodes.
\<close>

definition stable :: "Source \<Rightarrow> Source \<Rightarrow> bool" where
  "stable a b \<longleftrightarrow>
     key a = key b \<and> num_page_refs a = num_page_refs b \<and> texture a = texture b \<and>
     (\<forall>i. node_ref (page_refs a i) = node_ref (page_refs b i) \<and>
          node_list (page_refs a i) = node_list (page_refs b i))"

definition same_sources :: "cache_state \<Rightarrow> cache_state \<Rightarrow> bool" where
  "same_sources s s' \<longleftrightarrow>
     (\<forall>p. rel_option stable (sources s p) (sources s' p)) \<and>
     next_source s' = next_source s \<and> recycled s' = recycled s"

definition header :: "cache_state \<Rightarrow> source_ptr \<Rightarrow> (SourceKey \<times> nat \<times> GPUTexture) option" where
  "header s p = map_option (\<lambda>a. (key a, num_page_refs a, texture a)) (sources s p)"

definition tag :: "cache_state \<Rightarrow> node_ptr \<Rightarrow> (source_ptr option \<times> nat option) option" where
  "tag s x = map_option (\<lambda>a. (node_ref (page_refs a (snd x)), node_list (page_refs a (snd x))))
               (sources s (fst x))"

definition kept :: "cache_state \<Rightarrow> cache_state \<Rightarrow> source_ptr \<Rightarrow> bool" where
  "kept s s' p \<longleftrightarrow> header s' p = header s p \<and> (\<forall>i. tag s' (p, i) = tag s (p, i))"

text \<open>
  The state of \<^verbatim>\<open>CreateSource\<close> between two calls of \<^verbatim>\<open>add_page_ref\<close>: the lists are
  well formed, and the entries of \<^verbatim>\<open>page_refns\<close> below \<^verbatim>\<open>num_page_refs\<close> are the pages
  of the lists that hold the nodes of the new Source.
\<close>

definition built :: "source_ptr \<Rightarrow> cache_state \<times> u32 list \<Rightarrow> bool" where
  "built p st \<longleftrightarrow>
     (\<exists>L a. well_formed (fst st) L {} \<and> sources (fst st) p = Some a \<and>
        length (snd st) = MAX_PAGE_REFS_PER_SOURCE \<and>
        (\<forall>i < num_page_refs a. tag (fst st) (p, i) = Some (Some p, Some (unat (snd st ! i)))))"

definition ref_step ::
  "source_ptr \<Rightarrow> u32 set \<Rightarrow> cache_state \<times> u32 list \<Rightarrow> cache_state \<times> u32 list \<Rightarrow> bool" where
  "ref_step p C st st' \<longleftrightarrow>
     (\<exists>a b. sources (fst st) p = Some a \<and> sources (fst st') p = Some b \<and>
        key b = key a \<and> texture b = texture a \<and> num_page_refs a \<le> num_page_refs b \<and>
        (\<forall>i < num_page_refs a. snd st' ! i = snd st ! i) \<and>
        (\<forall>i. num_page_refs a \<le> i \<and> i < num_page_refs b \<longrightarrow> snd st' ! i \<in> C)) \<and>
     (\<forall>p'. p' \<noteq> p \<longrightarrow> header (fst st') p' = header (fst st) p') \<and>
     (\<forall>p' i. p' \<noteq> p \<longrightarrow> tag (fst st') (p', i) = tag (fst st) (p', i)) \<and>
     next_source (fst st') = next_source (fst st) \<and> recycled (fst st') = recycled (fst st)"

definition has_ref :: "source_ptr \<Rightarrow> u32 \<Rightarrow> nat \<Rightarrow> cache_state \<times> u32 list \<Rightarrow> bool" where
  "has_ref p pn i st \<longleftrightarrow>
     (\<exists>b. sources (fst st) p = Some b \<and> i < num_page_refs b \<and> snd st ! i = pn)"

text \<open>
  The invariant of the reachable states: the lists are well formed; the first page
  reference of every Source is in the list of the page of its key, and its page
  references are in the lists of the pages \<^verbatim>\<open>CreateSource\<close> passed to
  \<^verbatim>\<open>add_page_ref\<close>; no two Sources have the same key.
\<close>

definition source_ok :: "gpu_types \<Rightarrow> cache_state \<Rightarrow> source_ptr \<Rightarrow> bool" where
  "source_ok gt s p \<longleftrightarrow>
     (\<forall>k n t. header s p = Some (k, n, t) \<longrightarrow>
        0 < n \<and> unat (page k) < unat NUM_PAGES \<and>
        tag s (p, 0) = Some (Some p, Some (unat (page k))) \<and>
        (\<forall>i < n. \<exists>c \<in> set (page_calls gt k). tag s (p, i) = Some (Some p, Some (unat c))) \<and>
        (\<forall>c \<in> set (page_calls gt k). \<exists>i < n. tag s (p, i) = Some (Some p, Some (unat c))))"

definition cache_inv :: "gpu_types \<Rightarrow> cache_state \<Rightarrow> bool" where
  "cache_inv gt s \<longleftrightarrow>
     (\<exists>L. well_formed s L {}) \<and> (\<forall>p. source_ok gt s p) \<and>
     (\<forall>p q k n t n' t'. header s p = Some (k, n, t) \<and> header s q = Some (k, n', t') \<longrightarrow> p = q)"

section \<open>Texture decoding: proofs\<close>

lemma for_each_total:
  "\<forall>i<n. \<exists>out. body i = Inr out \<Longrightarrow>
   for_each n body = Inr (concat (map (\<lambda>i. projr (body i)) [0..<n]))"
proof (induction n)
  case 0
  show ?case by simp
next
  case (Suc n)
  then obtain out where "body n = Inr out" by auto
  with Suc show ?case by simp
qed





lemma rows_total:
  assumes "\<And>y. y < n \<Longrightarrow> \<exists>r. row y = Inr r"
  shows "\<exists>tex. for_each n (\<lambda>y. one_row (row y)) = Inr tex"
proof -
  have "\<forall>i<n. \<exists>out. one_row (row i) = Inr out"
    using assms by (fastforce simp: one_row_def)
  from for_each_total [OF this] show ?thesis by blast
qed

lemma top_nibble: "drop_bit 12 (ucast (w :: u16) :: u32) AND 0x0F = drop_bit 12 (ucast w)"
proof -
  have m: "(0x0F :: u32) = mask 4" by (simp add: mask_eq_exp_minus_1)
  show ?thesis unfolding m
    by (rule bit_word_eqI) (auto simp: bit_simps dest: bit_imp_le_length)
qed








lemma nibble_le: "unat ((pp :: u32) AND 0x0F) \<le> 15"
  using word_and_le1 [of pp "0x0F"] by (simp add: word_le_nat_alt)


lemma DecodeTexture4_word_total:
  assumes "p < unat VRAM_WIDTH * unat VRAM_HEIGHT" "pal + 15 < unat VRAM_WIDTH * unat VRAM_HEIGHT"
  shows "\<exists>out. DecodeTexture4_word gt g p pal = Inr out"
proof -
  define pp :: u32 where "pp = ucast (g p)"
  have "unat (drop_bit 12 pp) \<le> 15"
    using nibble_le [of "drop_bit 12 pp"] by (simp add: pp_def top_nibble)
  with assms nibble_le [of pp] nibble_le [of "drop_bit 4 pp"] nibble_le [of "drop_bit 8 pp"]
  show ?thesis
    by (simp add: DecodeTexture4_word_def read_pp_def vram_read_def pp_def [symmetric])
qed


lemma DecodeTexture4_total:
  assumes "pg + 255 * unat VRAM_WIDTH + 63 < unat VRAM_WIDTH * unat VRAM_HEIGHT"
    and "pal + 15 < unat VRAM_WIDTH * unat VRAM_HEIGHT"
  shows "\<exists>tex. DecodeTexture4 gt g pg pal = Inr tex"
  unfolding DecodeTexture4_def
proof (rule rows_total)
  fix y assume y: "y < unat TEXTURE_PAGE_HEIGHT"
  have "\<forall>x < unat (TEXTURE_PAGE_WIDTH div 4).
          \<exists>out. DecodeTexture4_word gt g (pg + y * unat VRAM_WIDTH + x) pal = Inr out"
  proof (intro allI impI)
    fix x assume "x < unat (TEXTURE_PAGE_WIDTH div 4)"
    with y assms(1) have "pg + y * unat VRAM_WIDTH + x < unat VRAM_WIDTH * unat VRAM_HEIGHT"
      by (simp add: TEXTURE_PAGE_WIDTH_def TEXTURE_PAGE_HEIGHT_def VRAM_WIDTH_def VRAM_HEIGHT_def)
    from DecodeTexture4_word_total [OF this assms(2)]
    show "\<exists>out. DecodeTexture4_word gt g (pg + y * unat VRAM_WIDTH + x) pal = Inr out" .
  qed
  from for_each_total [OF this]
  show "\<exists>r. for_each (unat (TEXTURE_PAGE_WIDTH div 4))
            (\<lambda>x. DecodeTexture4_word gt g (pg + y * unat VRAM_WIDTH + x) pal) = Inr r"
    by blast
qed


lemma DecodeTexture16_total:
  assumes "pg + 255 * unat VRAM_WIDTH + 255 < unat VRAM_WIDTH * unat VRAM_HEIGHT"
  shows "\<exists>tex. DecodeTexture16 gt g pg = Inr tex"
  unfolding DecodeTexture16_def
proof (rule rows_total)
  fix y assume y: "y < unat TEXTURE_PAGE_HEIGHT"
  have "\<forall>x < unat TEXTURE_PAGE_WIDTH.
          \<exists>out. DecodeTexture16_word gt g (pg + y * unat VRAM_WIDTH + x) = Inr out"
  proof (intro allI impI)
    fix x assume "x < unat TEXTURE_PAGE_WIDTH"
    with y assms(1) have "pg + y * unat VRAM_WIDTH + x < unat VRAM_WIDTH * unat VRAM_HEIGHT"
      by (simp add: TEXTURE_PAGE_WIDTH_def TEXTURE_PAGE_HEIGHT_def VRAM_WIDTH_def VRAM_HEIGHT_def)
    then show "\<exists>out. DecodeTexture16_word gt g (pg + y * unat VRAM_WIDTH + x) = Inr out"
      by (simp add: DecodeTexture16_word_def vram_read_def)
  qed
  from for_each_total [OF this]
  show "\<exists>r. for_each (unat TEXTURE_PAGE_WIDTH)
            (\<lambda>x. DecodeTexture16_word gt g (pg + y * unat VRAM_WIDTH + x)) = Inr r"
    by blast
qed

lemma unat_PageStartX: "unat (PageStartX pn) = (unat pn mod 16) * 64"
proof -
  have "unat (pn mod 16) < 16"
    by (simp add: unat_mod)
  then have "unat (pn mod 16) * unat (64 :: u32) < 2 ^ LENGTH(32)" by simp
  then have "unat ((pn mod 16) * 64) = unat (pn mod 16) * unat (64 :: u32)"
    by (simp only: unat_mult_lem)
  then show ?thesis
    by (simp add: PageStartX_def VRAM_PAGES_WIDE_def VRAM_WIDTH_def VRAM_PAGE_WIDTH_def unat_mod)
qed

lemma unat_PageStartY: "unat pn < 256 \<Longrightarrow> unat (PageStartY pn) = (unat pn div 16) * 256"
proof -
  assume a: "unat pn < 256"
  have "unat (pn div 16) = unat pn div 16" by (simp add: unat_div)
  with a have "unat (pn div 16) * unat (256 :: u32) < 2 ^ LENGTH(32)" by simp
  then have "unat ((pn div 16) * 256) = unat (pn div 16) * unat (256 :: u32)"
    by (simp only: unat_mult_lem)
  then show ?thesis
    by (simp add: PageStartY_def VRAM_PAGES_WIDE_def VRAM_WIDTH_def VRAM_PAGE_WIDTH_def
        VRAM_PAGE_HEIGHT_def unat_div)
qed

lemma VRAMPagePointer_eq:
  assumes "unat pn < 256"
  shows "VRAMPagePointer pn = (unat pn div 16) * 262144 + (unat pn mod 16) * 64"
proof -
  have y: "unat (PageStartY pn) = (unat pn div 16) * 256" using assms by (rule unat_PageStartY)
  have x: "unat (PageStartX pn) = (unat pn mod 16) * 64" by (rule unat_PageStartX)
  from assms have "unat pn div 16 < 16" by simp
  then have yb: "unat (PageStartY pn) * unat (1024 :: u32) < 2 ^ LENGTH(32)"
    by (simp add: y)
  then have m: "unat (PageStartY pn * 1024) = unat (PageStartY pn) * unat (1024 :: u32)"
    by (simp only: unat_mult_lem)
  have "unat pn mod 16 < 16" by simp
  with \<open>unat pn div 16 < 16\<close> have "unat (PageStartY pn * 1024) + unat (PageStartX pn) < 2 ^ LENGTH(32)"
    by (simp add: m x y)
  then have "unat (PageStartY pn * 1024 + PageStartX pn) = unat (PageStartY pn * 1024) + unat (PageStartX pn)"
    by (simp only: unat_add_lem)
  then show ?thesis
    by (simp add: VRAMPagePointer_def VRAM_WIDTH_def m x y)
qed




lemma unat_ucast_u8_u32: "unat (ucast (pg :: u8) :: u32) = unat pg"
proof -
  have "unat pg < 2 ^ 8" using unsigned_less [of pg] by simp
  then have "unat pg < 2 ^ 32" by simp
  then show ?thesis
    by (simp add: unsigned_ucast_eq take_bit_nat_eq_self)
qed

lemma unat_NUM_PAGES: "unat NUM_PAGES = 32"
  by (simp add: NUM_PAGES_def VRAM_PAGES_WIDE_def VRAM_PAGES_HIGH_def VRAM_WIDTH_def
      VRAM_HEIGHT_def VRAM_PAGE_WIDTH_def VRAM_PAGE_HEIGHT_def)

lemma VRAMPagePointer_u8: "VRAMPagePointer (ucast (pg :: u8)) = page_origin (unat pg)"
proof -
  have "unat pg < 2 ^ 8" using unsigned_less [of pg] by simp
  then have "unat (ucast pg :: u32) < 256" by (simp add: unat_ucast_u8_u32)
  from VRAMPagePointer_eq [OF this] show ?thesis
    by (simp add: unat_ucast_u8_u32 page_origin_def)
qed

lemma palette_pointer_eq:
  assumes "clut_origin gt clut < 2 ^ 32"
  shows "palette_pointer gt clut = clut_origin gt clut"
proof -
  from assms have b: "unat (GetYBase gt clut) * unat (1024 :: u32) < 2 ^ LENGTH(32)"
    by (simp add: clut_origin_def)
  then have m: "unat (GetYBase gt clut * 1024) = unat (GetYBase gt clut) * unat (1024 :: u32)"
    by (simp only: unat_mult_lem)
  from assms have "unat (GetYBase gt clut * 1024) + unat (GetXBase gt clut) < 2 ^ LENGTH(32)"
    by (simp add: m clut_origin_def)
  then have "unat (GetYBase gt clut * 1024 + GetXBase gt clut) =
             unat (GetYBase gt clut * 1024) + unat (GetXBase gt clut)"
    by (simp only: unat_add_lem)
  then show ?thesis
    by (simp add: palette_pointer_def clut_origin_def VRAM_WIDTH_def m)
qed

lemma page_origin_4bit:
  assumes "pn < 32"
  shows "page_origin pn + 255 * unat VRAM_WIDTH + 63 < unat VRAM_WIDTH * unat VRAM_HEIGHT"
proof -
  define a where "a = pn div 16"
  define b where "b = pn mod 16"
  from assms have "pn < 2 * 16" by simp
  then have "a < 2" unfolding a_def by (rule less_mult_imp_div_less)
  moreover have "b < 16" unfolding b_def by simp
  moreover have "page_origin pn = a * 262144 + b * 64"
    by (simp add: page_origin_def a_def b_def)
  ultimately show ?thesis
    by (simp add: VRAM_WIDTH_def VRAM_HEIGHT_def)
qed


lemma page_origin_16bit:
  "page_origin pn + 255 * unat VRAM_WIDTH + 255 < unat VRAM_WIDTH * unat VRAM_HEIGHT \<longleftrightarrow> pn < 29"
proof -
  define a where "a = pn div 16"
  define b where "b = pn mod 16"
  have pn: "pn = a * 16 + b" by (simp add: a_def b_def)
  have b: "b < 16" unfolding b_def by simp
  have o: "page_origin pn = a * 262144 + b * 64"
    by (simp add: page_origin_def a_def b_def)
  have "a = 0 \<or> a = 1 \<or> 2 \<le> a" by (cases a) auto
  then have "a * 262144 + b * 64 + 261375 < 524288 \<longleftrightarrow> a * 16 + b < 29"
  proof (elim disjE)
    assume "a = 0"
    with b show ?thesis by simp
  next
    assume a1: "a = 1"
    have "b * 64 < 769 \<longleftrightarrow> b < 13"
    proof
      assume "b * 64 < 769"
      show "b < 13"
      proof (rule ccontr)
        assume "\<not> b < 13"
        then have "13 * 64 \<le> b * 64" by simp
        with \<open>b * 64 < 769\<close> show False by simp
      qed
    next
      assume "b < 13"
      then have "b * 64 \<le> 12 * 64" by simp
      then show "b * 64 < 769" by simp
    qed
    with a1 show ?thesis by simp
  next
    assume a2: "2 \<le> a"
    then have "2 * 262144 \<le> a * 262144" "2 * 16 \<le> a * 16" by simp_all
    then show ?thesis by simp
  qed
  then show ?thesis
    by (simp add: o pn [symmetric] VRAM_WIDTH_def VRAM_HEIGHT_def)
qed













section \<open>Two-pass rendering\<close>

text \<open>
  C5. A batch with texturing enabled and a transparency mode other than disabled, on a
  device without dual-source blending, resolves to the render mode
  \<^verbatim>\<open>TransparentAndOpaque\<close>, needs two-pass rendering, and is drawn in exactly two passes,
  \<^verbatim>\<open>OnlyOpaque\<close> then \<^verbatim>\<open>OnlyTransparent\<close>, never in one \<^verbatim>\<open>TransparentAndOpaque\<close> pass.
  In particular this is so for a textured batch with background-minus-foreground
  transparency on a device without dual-source blending.
\<close>

theorem two_pass_rendering_rule:
  "(texture_mode b \<noteq> GPUTextureMode.Disabled \<and> transparency_mode b \<noteq> GPUTransparencyMode.Disabled \<longrightarrow>
      GetRenderMode b = TransparentAndOpaque \<and>
      NeedsTwoPassRendering False b \<and>
      FlushRender_draws False b = [OnlyOpaque, OnlyTransparent] \<and>
      TransparentAndOpaque \<notin> set (FlushRender_draws False b)) \<and>
   (texture_mode b \<noteq> GPUTextureMode.Disabled \<and> transparency_mode b = BackgroundMinusForeground \<longrightarrow>
      GetRenderMode b = TransparentAndOpaque \<and>
      NeedsTwoPassRendering False b \<and>
      FlushRender_draws False b = [OnlyOpaque, OnlyTransparent])"
  by (simp add: GetRenderMode_def NeedsTwoPassRendering_def FlushRender_draws_def)

theorem two_pass_rendering_rule_witness:
  "GetRenderMode \<lparr>texture_mode = Palette4Bit, transparency_mode = BackgroundMinusForeground,
       dithering = False, interlacing = False, set_mask_while_drawing = False,
       check_mask_before_draw = False, use_depth_buffer = False\<rparr> = TransparentAndOpaque \<and>
   NeedsTwoPassRendering False \<lparr>texture_mode = Palette4Bit,
       transparency_mode = BackgroundMinusForeground,
       dithering = False, interlacing = False, set_mask_while_drawing = False,
       check_mask_before_draw = False, use_depth_buffer = False\<rparr> \<and>
   FlushRender_draws False \<lparr>texture_mode = Palette4Bit,
       transparency_mode = BackgroundMinusForeground,
       dithering = False, interlacing = False, set_mask_while_drawing = False,
       check_mask_before_draw = False, use_depth_buffer = False\<rparr> = [OnlyOpaque, OnlyTransparent]"
  using two_pass_rendering_rule [of "\<lparr>texture_mode = Palette4Bit,
       transparency_mode = BackgroundMinusForeground,
       dithering = False, interlacing = False, set_mask_while_drawing = False,
       check_mask_before_draw = False, use_depth_buffer = False\<rparr>"]
  by simp


section \<open>The depth of mask-bit emulation: proofs\<close>

lemma round_half_even_error: "\<bar>of_int (round_half_even q) - q\<bar> \<le> 1 / 2"
proof -
  define f where "f = \<lfloor>q\<rfloor>"
  define r where "r = q - of_int f"
  have r: "0 \<le> r" "r < 1" unfolding r_def f_def by linarith+
  have q: "q = of_int f + r" by (simp add: r_def)
  consider "r < 1 / 2" | "1 / 2 < r" | "r = 1 / 2" by linarith
  then show ?thesis
  proof cases
    case 1
    then have "round_half_even q = f" by (simp add: round_half_even_def f_def r_def Let_def)
    with 1 r show ?thesis by (simp add: q)
  next
    case 2
    then have "round_half_even q = f + 1" by (simp add: round_half_even_def f_def r_def Let_def)
    with 2 r show ?thesis by (simp add: q)
  next
    case 3
    then have "round_half_even q = f \<or> round_half_even q = f + 1"
      by (simp add: round_half_even_def f_def r_def Let_def)
    with 3 show ?thesis by (auto simp: q)
  qed
qed

lemma round_half_even_of_int [simp]: "round_half_even (of_int n) = n"
  by (simp add: round_half_even_def)

lemma round_half_even_nonneg: "0 \<le> q \<Longrightarrow> 0 \<le> round_half_even q"
  by (auto simp: round_half_even_def Let_def)

lemma round_half_even_le:
  assumes "q \<le> of_int n"
  shows "round_half_even q \<le> n"
proof (cases "q = of_int n")
  case True
  then show ?thesis by simp
next
  case False
  with assms have "q < of_int n" by simp
  then have "\<lfloor>q\<rfloor> < n" by (simp add: floor_less_iff)
  then show ?thesis by (auto simp: round_half_even_def Let_def)
qed

lemma exp_down_le: "exp_down n e x \<le> e"
proof (induction n arbitrary: e)
  case 0
  show ?case by simp
next
  case (Suc n)
  from Suc [of "e - 1"] show ?case by simp
qed

lemma exp_down_ge: "e - int n \<le> exp_down n e x"
proof (induction n arbitrary: e)
  case 0
  show ?case by simp
next
  case (Suc n)
  from Suc [of "e - 1"] show ?case by simp
qed

lemma exp_down_upper: "exp_down n e x < e \<Longrightarrow> x < 2 powi (exp_down n e x + 1)"
proof (induction n arbitrary: e)
  case 0
  then show ?case by simp
next
  case (Suc n)
  show ?case
  proof (cases "2 powi e \<le> x")
    case True
    with Suc.prems show ?thesis by simp
  next
    case False
    then have r: "exp_down (Suc n) e x = exp_down n (e - 1) x" by simp
    show ?thesis
    proof (cases "exp_down n (e - 1) x < e - 1")
      case True
      from Suc.IH [OF this] r show ?thesis by simp
    next
      case f: False
      with exp_down_le [of n "e - 1" x] have "exp_down n (e - 1) x = e - 1" by simp
      with False r show ?thesis by simp
    qed
  qed
qed

lemma exp_down_lower: "e - int n < exp_down n e x \<Longrightarrow> 2 powi (exp_down n e x) \<le> x"
proof (induction n arbitrary: e)
  case 0
  then show ?case by simp
next
  case (Suc n)
  show ?case
  proof (cases "2 powi e \<le> x")
    case True
    then show ?thesis by simp
  next
    case False
    then have r: "exp_down (Suc n) e x = exp_down n (e - 1) x" by simp
    from Suc.prems r have "(e - 1) - int n < exp_down n (e - 1) x" by simp
    from Suc.IH [OF this] r show ?thesis by simp
  qed
qed

lemma exponent32_unit:
  assumes "0 \<le> x" "x < 1"
  shows "exponent32 x \<le> - 1" and "x < 2 powi (exponent32 x + 1)"
proof -
  define e where "e = exponent32 x"
  have ax: "\<bar>x\<bar> = x" using assms by simp
  have e: "e = exp_down 253 127 x" by (simp add: e_def exponent32_def ax)
  show "exponent32 x \<le> - 1"
  proof (rule ccontr)
    assume "\<not> exponent32 x \<le> - 1"
    then have p: "0 \<le> e" by (simp add: e_def)
    then have "127 - int 253 < exp_down 253 127 x" by (simp add: e)
    from exp_down_lower [OF this] have "2 powi e \<le> x" by (simp add: e)
    moreover from p have "(2 :: real) powi 0 \<le> 2 powi e" by (intro power_int_increasing) simp_all
    ultimately show False using assms by simp
  qed
  then have "exp_down 253 127 x < 127" by (simp add: e_def [symmetric] e [symmetric])
  from exp_down_upper [OF this] show "x < 2 powi (exponent32 x + 1)"
    by (simp add: e_def [symmetric] e [symmetric])
qed

lemma binary32_error: "\<bar>binary32 x - x\<bar> \<le> 2 powi (exponent32 x - 24)"
proof -
  define u :: real where "u = 2 powi (exponent32 x - 23)"
  have u: "0 < u" by (simp add: u_def zero_less_power_int)
  have b: "binary32 x = of_int (round_half_even (x / u)) * u"
    by (simp add: binary32_def u_def Let_def)
  have "binary32 x - x = (of_int (round_half_even (x / u)) - x / u) * u"
    using u by (simp add: b left_diff_distrib)
  then have "\<bar>binary32 x - x\<bar> = \<bar>of_int (round_half_even (x / u)) - x / u\<bar> * u"
    using u by (simp add: abs_mult)
  also have "\<dots> \<le> (1 / 2) * u"
    using round_half_even_error [of "x / u"] u by (intro mult_right_mono) simp_all
  also have "(1 / 2) * u = 2 powi (exponent32 x - 24)"
  proof -
    have "(2 :: real) powi (exponent32 x - 23) = 2 powi ((exponent32 x - 24) + 1)" by simp
    also have "\<dots> = 2 powi (exponent32 x - 24) * 2" by (subst power_int_add_1) simp_all
    finally show ?thesis by (simp add: u_def)
  qed
  finally show ?thesis .
qed

lemma round_half_even_0 [simp]: "round_half_even 0 = 0"
  using round_half_even_of_int [of 0] by simp

lemma binary32_0 [simp]: "binary32 0 = 0"
  by (simp add: binary32_def)

lemma binary32_exact_int:
  assumes n: "0 < n" "n < 2 ^ 24"
  shows "binary32 (of_int n) = of_int n"
proof -
  define x :: real where "x = of_int n"
  define e where "e = exponent32 x"
  from n have x1: "1 \<le> x" and x2: "x < 2 ^ 24" by (simp_all add: x_def)
  then have ax: "\<bar>x\<bar> = x" by simp
  have ed: "e = exp_down 253 127 x" by (simp add: e_def exponent32_def ax)
  have e0: "0 \<le> e"
  proof (rule ccontr)
    assume "\<not> 0 \<le> e"
    then have neg: "e + 1 \<le> 0" by simp
    then have "exp_down 253 127 x < 127" by (simp add: ed [symmetric])
    from exp_down_upper [OF this] have "x < 2 powi (e + 1)" by (simp add: ed [symmetric])
    also from neg have "(2 :: real) powi (e + 1) \<le> 2 powi 0" by (intro power_int_increasing) simp_all
    finally show False using x1 by simp
  qed
  then have "127 - int 253 < exp_down 253 127 x" by (simp add: ed [symmetric])
  from exp_down_lower [OF this] have "2 powi e \<le> x" by (simp add: ed [symmetric])
  with x2 have "(2 :: real) powi e < 2 powi 24" by simp
  then have e1: "e \<le> 23"
    using power_int_le_imp_less_exp [of "2 :: real" e 24] by simp
  define k where "k = nat (23 - e)"
  define u :: real where "u = 2 powi (e - 23)"
  have u: "0 < u" by (simp add: u_def zero_less_power_int)
  have p: "2 powi (23 - e) = (2 :: real) ^ k"
    using e1 by (simp add: k_def power_int_nonneg_exp)
  have "u * 2 ^ k = 2 powi (e - 23) * 2 powi (23 - e)"
    by (simp only: u_def p)
  also have "\<dots> = 2 powi ((e - 23) + (23 - e))"
    by (subst power_int_add) simp_all
  also have "\<dots> = 1" by simp
  finally have uk: "u * 2 ^ k = 1" .
  then have "x / u = x * 2 ^ k" using u by (simp add: field_simps)
  then have q: "x / u = of_int (n * 2 ^ k)" by (simp add: x_def)
  have "binary32 x = of_int (round_half_even (x / u)) * u"
    by (simp add: binary32_def u_def e_def Let_def)
  also have "\<dots> = of_int (n * 2 ^ k) * u" by (simp only: q round_half_even_of_int)
  also have "\<dots> = x * 2 ^ k * u" by (simp add: x_def)
  also have "\<dots> = x" using uk by (simp add: mult.assoc mult.commute)
  finally show ?thesis by (simp add: x_def)
qed

lemma binary32_1 [simp]: "binary32 1 = 1"
  using binary32_exact_int [of 1] by simp

lemma binary32_unit:
  assumes "0 \<le> x" "x \<le> 1"
  shows "0 \<le> binary32 x \<and> binary32 x \<le> 1 \<and> \<bar>binary32 x - x\<bar> \<le> 1 / 2 ^ 25"
proof (cases "x = 1")
  case True
  then show ?thesis by simp
next
  case False
  with assms have x: "0 \<le> x" "x < 1" by simp_all
  define e where "e = exponent32 x"
  define u :: real where "u = 2 powi (e - 23)"
  have u: "0 < u" by (simp add: u_def zero_less_power_int)
  note ex = exponent32_unit [OF x, folded e_def]
  have b: "binary32 x = of_int (round_half_even (x / u)) * u"
    by (simp add: binary32_def u_def e_def Let_def)
  from ex(1) have "(2 :: real) powi (e - 24) \<le> 2 powi (- 25)"
    by (intro power_int_increasing) simp_all
  also have "(2 :: real) powi (- 25) = 1 / 2 ^ 25"
    by (simp add: power_int_minus_divide)
  finally have 1: "\<bar>binary32 x - x\<bar> \<le> 1 / 2 ^ 25"
    using binary32_error [of x] by (simp add: e_def)
  from x u have "0 \<le> x / u" by simp
  from round_half_even_nonneg [OF this] u have 2: "0 \<le> binary32 x" by (simp add: b)
  have s: "(2 :: real) powi (e + 1) = 2 powi 24 * u"
  proof -
    have "(2 :: real) powi (24 + (e - 23)) = 2 powi 24 * 2 powi (e - 23)"
      by (subst power_int_add) simp_all
    moreover have "24 + (e - 23) = e + 1" by simp
    ultimately show ?thesis by (simp only: u_def)
  qed
  with ex(2) have "x / u < 2 powi 24" using u by (simp add: divide_less_eq)
  then have "x / u \<le> of_int 16777216" by simp
  from round_half_even_le [OF this] have "of_int (round_half_even (x / u)) \<le> (16777216 :: real)"
    by linarith
  with u have "binary32 x \<le> 16777216 * u" by (simp add: b)
  also have "16777216 * u = 2 powi (e + 1)" by (simp add: s)
  also from ex(1) have "(2 :: real) powi (e + 1) \<le> 2 powi 0"
    by (intro power_int_increasing) simp_all
  finally have "binary32 x \<le> 1" by simp
  with 1 2 show ?thesis by simp
qed

lemma depth_of_counter:
  assumes "0 \<le> c" "c \<le> 65535"
  shows "binary32 (1 - binary32 (binary32 (of_int c) / 65535)) =
         binary32 (1 - binary32 (of_int c / 65535))"
proof (cases "c = 0")
  case True
  then show ?thesis by simp
next
  case False
  with assms have "0 < c" "c < 2 ^ 24" by simp_all
  from binary32_exact_int [OF this] show ?thesis by simp
qed

lemma depth_bounds:
  assumes "0 \<le> c" "c \<le> 65535"
  defines "g \<equiv> binary32 (1 - binary32 (binary32 (of_int c) / 65535))"
  shows "0 \<le> g \<and> g \<le> 1 \<and> \<bar>g - (1 - of_int c / 65535)\<bar> \<le> 1 / 16777216"
proof -
  define x :: real where "x = of_int c / 65535"
  define y where "y = binary32 x"
  from assms(1,2) have x: "0 \<le> x" "x \<le> 1" by (simp_all add: x_def)
  from binary32_unit [OF x] have y: "0 \<le> y" "y \<le> 1" "\<bar>y - x\<bar> \<le> 1 / 33554432"
    by (simp_all add: y_def)
  then have w: "0 \<le> 1 - y" "1 - y \<le> 1" by simp_all
  from binary32_unit [OF w] have z: "0 \<le> binary32 (1 - y)" "binary32 (1 - y) \<le> 1"
    "\<bar>binary32 (1 - y) - (1 - y)\<bar> \<le> 1 / 33554432" by simp_all
  have g: "g = binary32 (1 - y)"
    unfolding g_def using depth_of_counter [OF assms(1,2)] by (simp add: y_def x_def)
  have "\<bar>binary32 (1 - y) - (1 - x)\<bar> \<le> 1 / 16777216" using y(3) z(3) by linarith
  with z g show ?thesis by (simp add: x_def)
qed

lemma depth_strict:
  assumes "0 \<le> c" "c < c'" "c' \<le> 65535"
  shows "binary32 (1 - binary32 (binary32 (of_int c') / 65535)) <
         binary32 (1 - binary32 (binary32 (of_int c) / 65535))"
proof -
  from assms have a: "0 \<le> c" "c \<le> 65535" and b: "0 \<le> c'" "c' \<le> 65535"
    by simp_all
  from assms(2) have "c + 1 \<le> c'" by simp
  then have "(of_int c + 1 :: real) \<le> of_int c'" by linarith
  then have "(of_int c :: real) / 65535 + 1 / 65535 \<le> of_int c' / 65535"
    by (simp add: divide_simps)
  with depth_bounds [OF a] depth_bounds [OF b] show ?thesis by linarith
qed

text \<open>
  C6. For every value of the counter from 0 to 65535, the depth
  \<^verbatim>\<open>GetCurrentNormalizedVertexDepth\<close> returns is the expression \<open>1 - counter / 65535\<close>
  evaluated in binary32 arithmetic (the conversion of the counter is exact), so it is
  within \<open>2 ^ - 24\<close> of that real number; it lies between 0 and 1; and it is strictly
  decreasing in the counter, so along every strictly increasing sequence of counter
  values the depths are strictly decreasing.
\<close>

theorem normalized_depth_of_counter:
  "(0 \<le> sint d \<and> sint d \<le> 65535 \<longrightarrow>
      GetCurrentNormalizedVertexDepth d =
        binary32 (1 - binary32 (real_of_int (sint d) / 65535)) \<and>
      \<bar>GetCurrentNormalizedVertexDepth d - (1 - real_of_int (sint d) / 65535)\<bar> \<le> 1 / 2 ^ 24 \<and>
      0 \<le> GetCurrentNormalizedVertexDepth d \<and> GetCurrentNormalizedVertexDepth d \<le> 1) \<and>
   (0 \<le> sint d \<and> sint d < sint d' \<and> sint d' \<le> 65535 \<longrightarrow>
      GetCurrentNormalizedVertexDepth d' < GetCurrentNormalizedVertexDepth d) \<and>
   (\<forall>ds. (\<forall>c \<in> set ds. 0 \<le> sint c \<and> sint c \<le> 65535) \<and>
         sorted_wrt (\<lambda>a b. sint a < sint b) ds \<longrightarrow>
         sorted_wrt (\<lambda>a b. b < a) (map GetCurrentNormalizedVertexDepth ds))"
proof -
  have e: "(1 :: real) / 2 ^ 24 = 1 / 16777216" by simp
  have 1: "GetCurrentNormalizedVertexDepth d =
        binary32 (1 - binary32 (real_of_int (sint d) / 65535)) \<and>
      \<bar>GetCurrentNormalizedVertexDepth d - (1 - real_of_int (sint d) / 65535)\<bar> \<le> 1 / 2 ^ 24 \<and>
      0 \<le> GetCurrentNormalizedVertexDepth d \<and> GetCurrentNormalizedVertexDepth d \<le> 1"
    if "0 \<le> sint d \<and> sint d \<le> 65535" for d :: "32 word"
  proof -
    from that have a: "0 \<le> sint d" "sint d \<le> 65535" by blast+
    from depth_of_counter [OF a] depth_bounds [OF a] show ?thesis
      unfolding GetCurrentNormalizedVertexDepth_def e by blast
  qed
  have 2: "GetCurrentNormalizedVertexDepth d' < GetCurrentNormalizedVertexDepth d"
    if "0 \<le> sint d \<and> sint d < sint d' \<and> sint d' \<le> 65535" for d d' :: "32 word"
  proof -
    from that have a: "0 \<le> sint d" "sint d < sint d'" "sint d' \<le> 65535" by blast+
    from depth_strict [OF a] show ?thesis
      unfolding GetCurrentNormalizedVertexDepth_def .
  qed
  have 3: "sorted_wrt (\<lambda>a b. b < a) (map GetCurrentNormalizedVertexDepth ds)"
    if "(\<forall>c \<in> set ds. 0 \<le> sint c \<and> sint c \<le> 65535) \<and>
         sorted_wrt (\<lambda>a b. sint a < sint b) ds" for ds :: "32 word list"
  proof -
    from that have r: "\<forall>c \<in> set ds. 0 \<le> sint c \<and> sint c \<le> 65535"
      and s: "sorted_wrt (\<lambda>a b. sint a < sint b) ds" by blast+
    have "sorted_wrt (\<lambda>a b. GetCurrentNormalizedVertexDepth b < GetCurrentNormalizedVertexDepth a) ds"
    proof (rule sorted_wrt_mono_rel [OF _ s])
      fix a b assume "a \<in> set ds" "b \<in> set ds" "sint a < sint b"
      with r have "0 \<le> sint a \<and> sint a < sint b \<and> sint b \<le> 65535" by blast
      then show "GetCurrentNormalizedVertexDepth b < GetCurrentNormalizedVertexDepth a" by (rule 2)
    qed
    then show ?thesis by (simp add: sorted_wrt_map)
  qed
  from 1 2 3 show ?thesis by blast
qed

theorem normalized_depth_of_counter_witness:
  "GetCurrentNormalizedVertexDepth 65535 < GetCurrentNormalizedVertexDepth 0 \<and>
   0 \<le> GetCurrentNormalizedVertexDepth 65535 \<and> GetCurrentNormalizedVertexDepth 0 \<le> 1"
proof -
  have s: "sint (0 :: 32 word) = 0" "sint (65535 :: 32 word) = 65535" by simp_all
  have a: "0 \<le> sint (0 :: 32 word) \<and> sint (0 :: 32 word) < sint (65535 :: 32 word) \<and>
           sint (65535 :: 32 word) \<le> 65535" by (simp only: s) simp
  have b: "0 \<le> sint (65535 :: 32 word) \<and> sint (65535 :: 32 word) \<le> 65535"
    by (simp only: s) simp
  have c: "0 \<le> sint (0 :: 32 word) \<and> sint (0 :: 32 word) \<le> 65535"
    by (simp only: s) simp
  from normalized_depth_of_counter [of 0 65535] a
  have "GetCurrentNormalizedVertexDepth 65535 < GetCurrentNormalizedVertexDepth 0" by blast
  moreover from normalized_depth_of_counter [of 65535 0] b
  have "0 \<le> GetCurrentNormalizedVertexDepth 65535" by blast
  moreover from normalized_depth_of_counter [of 0 0] c
  have "GetCurrentNormalizedVertexDepth 0 \<le> 1" by blast
  ultimately show ?thesis by blast
qed

section \<open>Proofs: the texture cache\<close>

subsection \<open>Results, and reading and writing through pointers\<close>

lemma bindE_simps [simp]:
  "bindE (Inl e) f = Inl e" "bindE (Inr v) f = f v"
  by (simp_all add: bindE_def)

lemma bindO_simps [simp]:
  "bindO None f = None" "bindO (Some (Inl e)) f = Some (Inl e)" "bindO (Some (Inr v)) f = f v"
  by (simp_all add: bindO_def)

lemma bindE_Inr_iff: "bindE r f = Inr v \<longleftrightarrow> (\<exists>w. r = Inr w \<and> f w = Inr v)"
  by (cases r) auto

lemma bindO_Inr_iff: "bindO r f = Some (Inr v) \<longleftrightarrow> (\<exists>w. r = Some (Inr w) \<and> f w = Some (Inr v))"
  by (cases r) (auto simp: bindO_def split: sum.splits)

lemma stable_refl [simp]: "stable a a"
  by (simp add: stable_def)

lemma stable_trans: "stable a b \<Longrightarrow> stable b c \<Longrightarrow> stable a c"
  by (simp add: stable_def)

lemma same_sources_refl [simp]: "same_sources s s"
  by (simp add: same_sources_def option.rel_refl)

lemma same_sources_trans: "same_sources s t \<Longrightarrow> same_sources t u \<Longrightarrow> same_sources s u"
  unfolding same_sources_def
proof (intro conjI allI)
  fix p
  assume a: "(\<forall>p. rel_option stable (sources s p) (sources t p)) \<and> next_source t = next_source s \<and> recycled t = recycled s"
    and b: "(\<forall>p. rel_option stable (sources t p) (sources u p)) \<and> next_source u = next_source t \<and> recycled u = recycled t"
  from a b have "rel_option stable (sources s p) (sources t p)" "rel_option stable (sources t p) (sources u p)"
    by auto
  then show "rel_option stable (sources s p) (sources u p)"
    by (cases "sources s p"; cases "sources t p"; cases "sources u p") (auto intro: stable_trans)
qed auto

lemma get_node_Inr_iff:
  "get_node s n = Inr nd \<longleftrightarrow>
     (\<exists>src. sources s (fst n) = Some src \<and> snd n < MAX_PAGE_REFS_PER_SOURCE \<and>
        nd = page_refs src (snd n))"
  by (auto simp: get_node_def split: option.splits)

lemma set_node_Inr_iff:
  "set_node n f s = Inr s' \<longleftrightarrow>
     (\<exists>src. sources s (fst n) = Some src \<and> snd n < MAX_PAGE_REFS_PER_SOURCE \<and>
        s' = s\<lparr>sources := (sources s)
                 (fst n \<mapsto> src\<lparr>page_refs := (page_refs src)(snd n := f (page_refs src (snd n)))\<rparr>)\<rparr>)"
  by (auto simp: set_node_def split: option.splits)

lemma set_node_ok:
  assumes "get_node s n = Inr nd"
  shows "\<exists>s'. set_node n f s = Inr s'"
  using assms by (auto simp: get_node_Inr_iff set_node_Inr_iff)

lemma get_node_set_node:
  assumes "set_node n f s = Inr s'"
  shows "get_node s' m = (if m = n then map_sum id f (get_node s n) else get_node s m)"
  using assms
  by (cases m; cases n) (auto simp: set_node_Inr_iff get_node_def split: option.splits if_splits)

lemma set_node_fields:
  assumes "set_node n f s = Inr s'"
  shows "m_page_sources s' = m_page_sources s" "next_source s' = next_source s"
    "recycled s' = recycled s"
  using assms by (auto simp: set_node_Inr_iff)

lemma set_node_same_sources:
  assumes "set_node n f s = Inr s'"
    and "\<And>nd. node_ref (f nd) = node_ref nd \<and> node_list (f nd) = node_list nd"
  shows "same_sources s s'"
proof -
  from assms(1) obtain src where src: "sources s (fst n) = Some src"
    and s': "s' = s\<lparr>sources := (sources s)
                 (fst n \<mapsto> src\<lparr>page_refs := (page_refs src)(snd n := f (page_refs src (snd n)))\<rparr>)\<rparr>"
    by (auto simp: set_node_Inr_iff)
  have "rel_option stable (sources s p) (sources s' p)" for p
  proof (cases "p = fst n")
    case True
    with src s' assms(2) show ?thesis by (simp add: stable_def)
  next
    case False
    with s' show ?thesis by (simp add: option.rel_refl)
  qed
  with s' show ?thesis by (simp add: same_sources_def)
qed

lemma get_list_Inr_iff: "get_list s pn = Inr l \<longleftrightarrow> pn < unat NUM_PAGES \<and> l = m_page_sources s pn"
  by (auto simp: get_list_def)

lemma set_list_Inr_iff:
  "set_list pn f s = Inr s' \<longleftrightarrow>
     pn < unat NUM_PAGES \<and>
     s' = s\<lparr>m_page_sources := (m_page_sources s)(pn := f (m_page_sources s pn))\<rparr>"
  by (auto simp: set_list_def)

lemma get_node_set_list:
  "set_list pn f s = Inr s' \<Longrightarrow> get_node s' m = get_node s m"
  by (auto simp: set_list_Inr_iff get_node_def)

lemma set_list_same_sources: "set_list pn f s = Inr s' \<Longrightarrow> same_sources s s'"
  by (auto simp: set_list_Inr_iff same_sources_def option.rel_refl)

subsection \<open>Segments of a list\<close>

lemma seg_frame:
  "\<forall>x \<in> set xs. get_node s' x = get_node s x \<Longrightarrow> seg s' p c xs d = seg s p c xs d"
  by (induction xs arbitrary: p c) auto

lemma seg_first: "seg s p c xs d \<Longrightarrow> c = first_of xs d"
  by (cases xs) (auto simp: first_of_def)

lemma last_of_simps [simp]:
  "last_of p [] = p" "last_of p (xs @ [x]) = Some x" "last_of p (x # xs) = last_of (Some x) xs"
  by (auto simp: last_of_def)

lemma first_of_simps [simp]:
  "first_of [] d = d" "first_of (x # xs) d = Some x"
  by (auto simp: first_of_def)

lemma last_of_append [simp]: "last_of p (xs @ ys) = last_of (last_of p xs) ys"
  by (auto simp: last_of_def)

lemma seg_append:
  "seg s p c (xs @ ys) d \<longleftrightarrow> (\<exists>m. seg s p c xs m \<and> seg s (last_of p xs) m ys d)"
  by (induction xs arbitrary: p c) auto

lemma seg_node:
  "seg s p c xs d \<Longrightarrow> x \<in> set xs \<Longrightarrow> \<exists>nd. get_node s x = Inr nd"
  by (induction xs arbitrary: p c) auto

lemma seg_middle:
  assumes "seg s p c (as @ x # bs) d"
  shows "\<exists>nd. get_node s x = Inr nd \<and> node_prev nd = last_of p as \<and>
           node_next nd = first_of bs d \<and> seg s p c as (Some x) \<and>
           seg s (Some x) (node_next nd) bs d"
  using assms by (auto simp: seg_append dest: seg_first)

lemma seg_set_next_last:
  assumes "seg s p c (xs @ [a]) m" "a \<notin> set xs"
    and "set_node a (\<lambda>n. n\<lparr>node_next := v\<rparr>) s = Inr s'"
  shows "seg s' p c (xs @ [a]) v"
proof -
  from assms(1) obtain nd where 1: "seg s p c xs (Some a)" and nd: "get_node s a = Inr nd"
    and pr: "node_prev nd = last_of p xs"
    by (auto simp: seg_append)
  have "\<forall>x \<in> set xs. get_node s' x = get_node s x"
    using assms(2) get_node_set_node [OF assms(3)] by auto
  from seg_frame [OF this] 1 have "seg s' p c xs (Some a)" by blast
  moreover have "get_node s' a = Inr (nd\<lparr>node_next := v\<rparr>)"
    using get_node_set_node [OF assms(3), of a] nd by simp
  ultimately show ?thesis using pr by (auto simp: seg_append)
qed

lemma seg_set_prev_first:
  assumes "seg s q m (b # ys) d" "b \<notin> set ys"
    and "set_node b (\<lambda>n. n\<lparr>node_prev := v\<rparr>) s = Inr s'"
  shows "seg s' v m (b # ys) d"
proof -
  from assms(1) obtain nd where m: "m = Some b" and nd: "get_node s b = Inr nd"
    and 1: "seg s (Some b) (node_next nd) ys d"
    by auto
  have "\<forall>x \<in> set ys. get_node s' x = get_node s x"
    using assms(2) get_node_set_node [OF assms(3)] by auto
  from seg_frame [OF this] 1 have "seg s' (Some b) (node_next nd) ys d" by blast
  moreover have "get_node s' b = Inr (nd\<lparr>node_prev := v\<rparr>)"
    using get_node_set_node [OF assms(3), of b] nd by simp
  ultimately show ?thesis using m by auto
qed

subsection \<open>ListUnlink\<close>

lemma ListUnlink_list:
  assumes li: "list_is s pn (as @ x # bs)" and d: "distinct (as @ x # bs)"
    and pn: "pn < unat NUM_PAGES"
    and nl: "\<exists>nd. get_node s x = Inr nd \<and> node_list nd = Some pn"
  shows "\<exists>s'. ListUnlink x s = Inr s' \<and> list_is s' pn (as @ bs) \<and> same_sources s s' \<and>
           (\<forall>q. q \<noteq> pn \<longrightarrow> m_page_sources s' q = m_page_sources s q) \<and>
           (\<forall>m. m \<notin> set as \<union> set bs \<longrightarrow> get_node s' m = get_node s m)"
proof -
  let ?h = "head (m_page_sources s pn)"
  from li have sg: "seg s None ?h (as @ x # bs) None"
    and tl: "tail (m_page_sources s pn) = last_of None (as @ x # bs)"
    by (auto simp: list_is_def)
  from seg_middle [OF sg] nl obtain nd where nd: "get_node s x = Inr nd"
    and pr: "node_prev nd = last_of None as" and nx: "node_next nd = first_of bs None"
    and sa: "seg s None ?h as (Some x)" and sb: "seg s (Some x) (node_next nd) bs None"
    and l: "node_list nd = Some pn"
    by auto
  \<comment> \<open>the first statement\<close>
  define step1 where "step1 =
     (case node_prev nd of
        Some p \<Rightarrow> set_node p (\<lambda>m. m\<lparr>node_next := node_next nd\<rparr>) s
      | None \<Rightarrow> (case node_list nd of None \<Rightarrow> Inl NullPointer
                 | Some l \<Rightarrow> set_list l (\<lambda>x. x\<lparr>head := node_next nd\<rparr>) s))"
  have "\<exists>s1. step1 = Inr s1 \<and> get_node s1 x = Inr nd \<and> same_sources s s1 \<and>
          seg s1 None (head (m_page_sources s1 pn)) as (node_next nd) \<and>
          seg s1 (Some x) (node_next nd) bs None \<and>
          tail (m_page_sources s1 pn) = tail (m_page_sources s pn) \<and>
          (\<forall>q. q \<noteq> pn \<longrightarrow> m_page_sources s1 q = m_page_sources s q) \<and>
          (\<forall>m. m \<notin> set as \<longrightarrow> get_node s1 m = get_node s m)"
  proof (cases as rule: rev_cases)
    case Nil
    with pr l pn obtain s1 where s1: "step1 = Inr s1"
      and e: "set_list pn (\<lambda>x. x\<lparr>head := node_next nd\<rparr>) s = Inr s1"
      by (auto simp: step1_def set_list_def)
    have g: "get_node s1 m = get_node s m" for m by (rule get_node_set_list [OF e])
    from seg_frame [of bs s1 s] g sb have "seg s1 (Some x) (node_next nd) bs None" by blast
    with s1 e Nil g nd set_list_same_sources [OF e] show ?thesis
      by (auto simp: set_list_Inr_iff)
  next
    case (snoc as' a)
    with pr have p: "node_prev nd = Some a" by simp
    from sa snoc have "\<exists>na. get_node s a = Inr na" by (auto intro: seg_node)
    then obtain s1 where e: "set_node a (\<lambda>m. m\<lparr>node_next := node_next nd\<rparr>) s = Inr s1"
      using set_node_ok by blast
    with p have s1: "step1 = Inr s1" by (simp add: step1_def)
    from d snoc have ax: "a \<noteq> x" and abs: "a \<notin> set bs" and aas: "a \<notin> set as'" by auto
    have g: "get_node s1 m = get_node s m" if "m \<noteq> a" for m
      using get_node_set_node [OF e, of m] that by simp
    from sa snoc have "seg s None ?h (as' @ [a]) (Some x)" by simp
    from seg_set_next_last [OF this aas e] snoc
    have 1: "seg s1 None ?h as (node_next nd)" by simp
    from seg_frame [of bs s1 s] g abs sb have 2: "seg s1 (Some x) (node_next nd) bs None"
      by (metis)
    have 3: "same_sources s s1" by (rule set_node_same_sources [OF e]) simp
    from s1 g ax nd 1 2 3 snoc set_node_fields [OF e] show ?thesis by auto
  qed
  then obtain s1 where s1: "step1 = Inr s1" and nd1: "get_node s1 x = Inr nd"
    and ss1: "same_sources s s1"
    and sa1: "seg s1 None (head (m_page_sources s1 pn)) as (node_next nd)"
    and sb1: "seg s1 (Some x) (node_next nd) bs None"
    and tl1: "tail (m_page_sources s1 pn) = tail (m_page_sources s pn)"
    and fr1: "\<forall>q. q \<noteq> pn \<longrightarrow> m_page_sources s1 q = m_page_sources s q"
    and g1: "\<forall>m. m \<notin> set as \<longrightarrow> get_node s1 m = get_node s m"
    by blast
  \<comment> \<open>the second statement\<close>
  define step2 where "step2 =
     (case node_next nd of
         Some q \<Rightarrow> set_node q (\<lambda>m. m\<lparr>node_prev := node_prev nd\<rparr>) s1
       | None \<Rightarrow> (case node_list nd of None \<Rightarrow> Inl NullPointer
                  | Some l \<Rightarrow> set_list l (\<lambda>x. x\<lparr>tail := node_prev nd\<rparr>) s1))"
  have u: "ListUnlink x s = step2"
    using nd s1 nd1 by (simp add: ListUnlink_def step1_def step2_def)
  have "\<exists>s2. step2 = Inr s2 \<and> list_is s2 pn (as @ bs) \<and> same_sources s1 s2 \<and>
          (\<forall>q. q \<noteq> pn \<longrightarrow> m_page_sources s2 q = m_page_sources s1 q) \<and>
          (\<forall>m. m \<notin> set bs \<longrightarrow> get_node s2 m = get_node s1 m)"
  proof (cases bs)
    case Nil
    with nx l pn obtain s2 where s2: "step2 = Inr s2"
      and e: "set_list pn (\<lambda>x. x\<lparr>tail := node_prev nd\<rparr>) s1 = Inr s2"
      by (auto simp: step2_def set_list_def)
    have g: "get_node s2 m = get_node s1 m" for m by (rule get_node_set_list [OF e])
    from seg_frame [of as s2 s1] g sa1
    have "seg s2 None (head (m_page_sources s1 pn)) as (node_next nd)" by blast
    with e Nil nx pr have "list_is s2 pn (as @ bs)"
      by (auto simp: list_is_def set_list_Inr_iff)
    with s2 e g set_list_same_sources [OF e] show ?thesis
      by (auto simp: set_list_Inr_iff)
  next
    case (Cons b bs')
    with nx have n: "node_next nd = Some b" by simp
    from sb1 Cons have "\<exists>nb. get_node s1 b = Inr nb" by (auto intro: seg_node)
    then obtain s2 where e: "set_node b (\<lambda>m. m\<lparr>node_prev := node_prev nd\<rparr>) s1 = Inr s2"
      using set_node_ok by blast
    with n have s2: "step2 = Inr s2" by (simp add: step2_def)
    from d Cons have bas: "b \<notin> set as" and bbs: "b \<notin> set bs'" by auto
    have g: "get_node s2 m = get_node s1 m" if "m \<noteq> b" for m
      using get_node_set_node [OF e, of m] that by simp
    from sb1 Cons have "seg s1 (Some x) (node_next nd) (b # bs') None" by simp
    from seg_set_prev_first [OF this bbs e] Cons
    have 1: "seg s2 (node_prev nd) (node_next nd) bs None" by simp
    from seg_frame [of as s2 s1] g bas sa1
    have 2: "seg s2 None (head (m_page_sources s1 pn)) as (node_next nd)" by metis
    have 3: "same_sources s1 s2" by (rule set_node_same_sources [OF e]) simp
    from 1 2 pr tl tl1 Cons set_node_fields [OF e] have "list_is s2 pn (as @ bs)"
      by (auto simp: list_is_def seg_append)
    with s2 g 3 Cons set_node_fields [OF e] show ?thesis by auto
  qed
  then obtain s2 where s2: "step2 = Inr s2" and li2: "list_is s2 pn (as @ bs)"
    and ss2: "same_sources s1 s2"
    and fr2: "\<forall>q. q \<noteq> pn \<longrightarrow> m_page_sources s2 q = m_page_sources s1 q"
    and g2: "\<forall>m. m \<notin> set bs \<longrightarrow> get_node s2 m = get_node s1 m"
    by blast
  from u s2 li2 same_sources_trans [OF ss1 ss2] fr1 fr2 g1 g2 show ?thesis by auto
qed

lemma same_sources_Some:
  assumes "same_sources s s'" "sources s' p = Some b"
  shows "\<exists>a. sources s p = Some a \<and> stable a b"
  using assms unfolding same_sources_def
  by (metis option.rel_cases option.distinct(1) option.inject)

lemma same_sources_Some':
  assumes "same_sources s s'" "sources s p = Some a"
  shows "\<exists>b. sources s' p = Some b \<and> stable a b"
  using assms unfolding same_sources_def
  by (metis option.rel_cases option.distinct(1) option.inject)

lemma same_sources_linked:
  assumes "same_sources s s'"
  shows "linked s' pn x = linked s pn x"
proof
  assume "linked s' pn x"
  then obtain b where b: "sources s' (fst x) = Some b" "snd x < num_page_refs b"
    "node_list (page_refs b (snd x)) = Some pn" "node_ref (page_refs b (snd x)) = Some (fst x)"
    by (auto simp: linked_def)
  from same_sources_Some [OF assms b(1)] obtain a where "sources s (fst x) = Some a" "stable a b"
    by blast
  with b show "linked s pn x" by (auto simp: linked_def stable_def)
next
  assume "linked s pn x"
  then obtain a where a: "sources s (fst x) = Some a" "snd x < num_page_refs a"
    "node_list (page_refs a (snd x)) = Some pn" "node_ref (page_refs a (snd x)) = Some (fst x)"
    by (auto simp: linked_def)
  from same_sources_Some' [OF assms a(1)] obtain b where "sources s' (fst x) = Some b" "stable a b"
    by blast
  with a show "linked s' pn x" by (auto simp: linked_def stable_def)
qed

lemma linked_page_unique: "linked s pn x \<Longrightarrow> linked s q x \<Longrightarrow> pn = q"
  by (auto simp: linked_def)

lemma well_formed_linked_node:
  assumes "well_formed s L U" "pn < unat NUM_PAGES" "x \<in> set (L pn)"
  shows "\<exists>nd. get_node s x = Inr nd \<and> node_list nd = Some pn \<and> node_ref nd = Some (fst x)"
proof -
  from assms have "linked s pn x" by (auto simp: well_formed_def)
  then obtain src where src: "sources s (fst x) = Some src" "snd x < num_page_refs src"
    "node_list (page_refs src (snd x)) = Some pn" "node_ref (page_refs src (snd x)) = Some (fst x)"
    by (auto simp: linked_def)
  from assms(1) src(1) have "num_page_refs src \<le> MAX_PAGE_REFS_PER_SOURCE" by (auto simp: well_formed_def)
  with src show ?thesis by (auto simp: get_node_Inr_iff)
qed

lemma ListUnlink_wf:
  assumes wf: "well_formed s L U" and pn: "pn < unat NUM_PAGES" and x: "x \<in> set (L pn)"
  shows "\<exists>s'. ListUnlink x s = Inr s' \<and> well_formed s' (L(pn := remove1 x (L pn))) (insert x U) \<and>
           same_sources s s'"
proof -
  from wf pn have dm: "distinct (map fst (L pn))" by (auto simp: well_formed_def)
  then have d: "distinct (L pn)" by (simp add: distinct_map)
  from split_list [OF x] obtain as bs where L: "L pn = as @ x # bs" by blast
  from wf pn have li: "list_is s pn (L pn)" by (auto simp: well_formed_def)
  from well_formed_linked_node [OF wf pn x] have nl: "\<exists>nd. get_node s x = Inr nd \<and> node_list nd = Some pn"
    by blast
  from ListUnlink_list [OF li [unfolded L] d [unfolded L] pn nl] obtain s' where
    u: "ListUnlink x s = Inr s'" and li': "list_is s' pn (as @ bs)" and ss: "same_sources s s'"
    and fr: "\<forall>q. q \<noteq> pn \<longrightarrow> m_page_sources s' q = m_page_sources s q"
    and g: "\<forall>m. m \<notin> set as \<union> set bs \<longrightarrow> get_node s' m = get_node s m"
    by blast
  from d L have rm: "remove1 x (L pn) = as @ bs" by (simp add: remove1_append)
  let ?L = "L(pn := remove1 x (L pn))"
  have w1: "list_is s' q (?L q) \<and> distinct (map fst (?L q)) \<and>
            (\<forall>y \<in> set (?L q). linked s' q y \<and> y \<notin> insert x U)"
    if q: "q < unat NUM_PAGES" for q
  proof (cases "q = pn")
    case True
    from dm L have "distinct (map fst (as @ bs))" by auto
    moreover have "linked s' pn y \<and> y \<notin> insert x U" if "y \<in> set (as @ bs)" for y
    proof -
      from that L have "y \<in> set (L pn)" by auto
      with wf pn have "linked s pn y" "y \<notin> U" by (auto simp: well_formed_def)
      moreover from that d L have "y \<noteq> x" by auto
      ultimately show ?thesis by (simp add: same_sources_linked [OF ss])
    qed
    ultimately show ?thesis using True li' rm by auto
  next
    case False
    from wf q have lq: "list_is s q (L q)" "distinct (map fst (L q))"
      and ly: "\<forall>y \<in> set (L q). linked s q y \<and> y \<notin> U" by (auto simp: well_formed_def)
    have ne: "y \<notin> set (L pn)" if "y \<in> set (L q)" for y
    proof
      assume "y \<in> set (L pn)"
      with wf pn have "linked s pn y" by (auto simp: well_formed_def)
      moreover from that ly have "linked s q y" by auto
      ultimately show False using False by (auto dest: linked_page_unique)
    qed
    then have "\<forall>y \<in> set (L q). get_node s' y = get_node s y"
      using g L by auto
    from seg_frame [OF this] lq(1) fr False have "list_is s' q (L q)"
      by (auto simp: list_is_def)
    moreover have "linked s' q y \<and> y \<notin> insert x U" if "y \<in> set (L q)" for y
    proof -
      from ne [OF that] x have "y \<noteq> x" by blast
      with that ly show ?thesis by (simp add: same_sources_linked [OF ss])
    qed
    ultimately show ?thesis using False lq(2) by auto
  qed
  have w2: "num_page_refs b \<le> MAX_PAGE_REFS_PER_SOURCE \<and> p < next_source s' \<and>
        (\<forall>i < num_page_refs b. (p, i) \<in> insert x U \<or> (\<exists>q < unat NUM_PAGES. (p, i) \<in> set (?L q)))"
    if b: "sources s' p = Some b" for p b
  proof -
    from same_sources_Some [OF ss b] obtain a where a: "sources s p = Some a" "stable a b" by blast
    from wf a(1) have 1: "num_page_refs a \<le> MAX_PAGE_REFS_PER_SOURCE" "p < next_source s"
      and 2: "\<forall>i < num_page_refs a. (p, i) \<in> U \<or> (\<exists>q < unat NUM_PAGES. (p, i) \<in> set (L q))"
      by (auto simp: well_formed_def)
    have "(p, i) \<in> insert x U \<or> (\<exists>q < unat NUM_PAGES. (p, i) \<in> set (?L q))"
      if "i < num_page_refs a" for i
    proof (cases "(p, i) = x")
      case True
      then show ?thesis by simp
    next
      case False
      from 2 that consider "(p, i) \<in> U" | q where "q < unat NUM_PAGES" "(p, i) \<in> set (L q)"
        by blast
      then show ?thesis
      proof cases
        case 1
        then show ?thesis by simp
      next
        case 2
        with False have "(p, i) \<in> set (?L q)" by auto
        with 2 show ?thesis by blast
      qed
    qed
    with 1 a(2) ss show ?thesis by (auto simp: stable_def same_sources_def)
  qed
  from w1 w2 have "well_formed s' ?L (insert x U)" unfolding well_formed_def by blast
  with u ss show ?thesis by blast
qed

lemma well_formed_cong:
  assumes "well_formed s L U" "\<forall>q < unat NUM_PAGES. L' q = L q"
  shows "well_formed s L' U"
proof -
  from assms(2) have e: "L' q = L q" if "q < unat NUM_PAGES" for q using that by blast
  have 1: "list_is s pn (L' pn) \<and> distinct (map fst (L' pn)) \<and>
        (\<forall>x \<in> set (L' pn). linked s pn x \<and> x \<notin> U)" if "pn < unat NUM_PAGES" for pn
    using assms(1) that e [OF that] unfolding well_formed_def by simp
  have 2: "num_page_refs src \<le> MAX_PAGE_REFS_PER_SOURCE \<and> p < next_source s \<and>
        (\<forall>i < num_page_refs src. (p, i) \<in> U \<or> (\<exists>pn < unat NUM_PAGES. (p, i) \<in> set (L' pn)))"
    if "sources s p = Some src" for p src
  proof -
    from assms(1) that have a: "num_page_refs src \<le> MAX_PAGE_REFS_PER_SOURCE" "p < next_source s"
      and b: "\<forall>i < num_page_refs src. (p, i) \<in> U \<or> (\<exists>pn < unat NUM_PAGES. (p, i) \<in> set (L pn))"
      unfolding well_formed_def by blast+
    have "(p, i) \<in> U \<or> (\<exists>pn < unat NUM_PAGES. (p, i) \<in> set (L' pn))" if "i < num_page_refs src" for i
      using b that e by metis
    with a show ?thesis by blast
  qed
  from 1 2 show ?thesis unfolding well_formed_def by blast
qed

lemma well_formed_unique_page:
  assumes "well_formed s L U" "q < unat NUM_PAGES" "q' < unat NUM_PAGES" "x \<in> set (L q)" "x \<in> set (L q')"
  shows "q = q'"
proof -
  from assms have "linked s q x" "linked s q' x" by (auto simp: well_formed_def)
  then show ?thesis by (rule linked_page_unique)
qed

lemma for_range_unlink:
  assumes wf: "well_formed s L {}" and src: "sources s p = Some src" and k: "k \<le> num_page_refs src"
  shows "\<exists>s'. for_range k (\<lambda>i. ListUnlink (p, i)) s = Inr s' \<and>
           well_formed s' (\<lambda>q. filter (\<lambda>y. y \<notin> {p} \<times> {..<k}) (L q)) ({p} \<times> {..<k}) \<and>
           same_sources s s'"
  using k
proof (induction k)
  case 0
  from wf have "well_formed s (\<lambda>q. filter (\<lambda>y. y \<notin> {p} \<times> {..<(0::nat)}) (L q)) {}"
    by (rule well_formed_cong) simp
  then show ?case by simp
next
  case (Suc k)
  let ?U = "{p} \<times> {..<k}"
  let ?L = "\<lambda>q. filter (\<lambda>y. y \<notin> ?U) (L q)"
  from Suc obtain s1 where f: "for_range k (\<lambda>i. ListUnlink (p, i)) s = Inr s1"
    and wf1: "well_formed s1 ?L ?U" and ss1: "same_sources s s1"
    by auto
  from same_sources_Some' [OF ss1 src] obtain b where b: "sources s1 p = Some b" "stable src b"
    by blast
  with Suc.prems have "k < num_page_refs b" by (simp add: stable_def)
  moreover have "(p, k) \<notin> ?U" by simp
  moreover from wf1 b(1) have "\<forall>i < num_page_refs b. (p, i) \<in> ?U \<or>
      (\<exists>q < unat NUM_PAGES. (p, i) \<in> set (?L q))"
    unfolding well_formed_def by blast
  ultimately obtain q where q: "q < unat NUM_PAGES" and x: "(p, k) \<in> set (?L q)"
    by blast
  from ListUnlink_wf [OF wf1 q x] obtain s2 where
    u: "ListUnlink (p, k) s1 = Inr s2"
    and wf2: "well_formed s2 (?L(q := remove1 (p, k) (?L q))) (insert (p, k) ?U)"
    and ss2: "same_sources s1 s2"
    by blast
  have U: "insert (p, k) ?U = {p} \<times> {..<Suc k}" by auto
  have "(?L(q := remove1 (p, k) (?L q))) q' = filter (\<lambda>y. y \<notin> {p} \<times> {..<Suc k}) (L q')"
    if q': "q' < unat NUM_PAGES" for q'
  proof (cases "q' = q")
    case True
    from wf1 q have "distinct (map fst (?L q))" by (auto simp: well_formed_def)
    then have "distinct (?L q)" by (simp add: distinct_map)
    then have "remove1 (p, k) (?L q) = filter (\<lambda>y. y \<noteq> (p, k)) (?L q)"
      by (simp add: distinct_remove1_removeAll removeAll_filter_not_eq) metis
    also have "\<dots> = filter (\<lambda>y. y \<notin> insert (p, k) ?U) (L q)"
      by (simp add: conj_commute)
    finally show ?thesis using True U by simp
  next
    case False
    have "(p, k) \<notin> set (?L q')"
      using well_formed_unique_page [OF wf1 q q' x] False by blast
    then have "(p, k) \<notin> set (L q')" by simp
    then have "filter (\<lambda>y. y \<notin> insert (p, k) ?U) (L q') = ?L q'"
      by (intro filter_cong) auto
    with False U show ?thesis by simp
  qed
  then have "\<forall>q' < unat NUM_PAGES.
      filter (\<lambda>y. y \<notin> {p} \<times> {..<Suc k}) (L q') = (?L(q := remove1 (p, k) (?L q))) q'"
    by simp
  from well_formed_cong [OF wf2 this] U f u same_sources_trans [OF ss1 ss2] show ?case
    by simp
qed

subsection \<open>Deleting a Source\<close>

lemma well_formed_list_node_index:
  assumes "well_formed s L U" "q < unat NUM_PAGES" "y \<in> set (L q)" "sources s (fst y) = Some src"
  shows "snd y < num_page_refs src"
  using assms unfolding well_formed_def linked_def by fastforce

lemma get_node_other_source:
  assumes "sources s' (fst y) = sources s (fst y)"
  shows "get_node s' y = get_node s y"
  using assms by (simp add: get_node_def)

lemma linked_other_source:
  assumes "sources s' (fst y) = sources s (fst y)"
  shows "linked s' q y = linked s q y"
  using assms by (simp add: linked_def)

lemma unlink_and_delete_wf:
  assumes wf: "well_formed s L {}" and src: "sources s p = Some src"
  shows "\<exists>s'. unlink_and_delete p s = Inr s' \<and>
           well_formed s' (\<lambda>q. filter (\<lambda>y. fst y \<noteq> p) (L q)) {} \<and>
           sources s' p = None \<and>
           (\<forall>p'. p' \<noteq> p \<longrightarrow> rel_option stable (sources s p') (sources s' p')) \<and>
           next_source s' = next_source s \<and>
           recycled s' = recycled s @ [texture src]"
proof -
  let ?n = "num_page_refs src"
  let ?U = "{p} \<times> {..<?n}"
  let ?L = "\<lambda>q. filter (\<lambda>y. y \<notin> ?U) (L q)"
  from for_range_unlink [OF wf src order_refl] obtain s1 where
    f: "for_range ?n (\<lambda>i. ListUnlink (p, i)) s = Inr s1"
    and wf1: "well_formed s1 ?L ?U" and ss1: "same_sources s s1"
    by blast
  from same_sources_Some' [OF ss1 src] obtain b where b: "sources s1 p = Some b" "stable src b"
    by blast
  define s2 where "s2 = s1\<lparr>recycled := recycled s1 @ [texture b], sources := (sources s1)(p := None)\<rparr>"
  have u: "unlink_and_delete p s = Inr s2"
    using src f b by (simp add: unlink_and_delete_def get_source_def s2_def)
  have np: "fst y \<noteq> p" if "q < unat NUM_PAGES" "y \<in> set (?L q)" for q y
  proof
    assume "fst y = p"
    with well_formed_list_node_index [OF wf1 that] b that(2) have "snd y < num_page_refs b" by simp
    with b(2) \<open>fst y = p\<close> have "y \<in> ?U" by (cases y) (simp add: stable_def)
    with that(2) show False by simp
  qed
  have Leq: "?L q = filter (\<lambda>y. fst y \<noteq> p) (L q)" if q: "q < unat NUM_PAGES" for q
  proof (rule filter_cong [OF refl])
    fix y assume y: "y \<in> set (L q)"
    show "(y \<notin> ?U) = (fst y \<noteq> p)"
    proof (cases "fst y = p")
      case True
      with well_formed_list_node_index [OF wf q y] src have "snd y < ?n" by simp
      with True show ?thesis by (cases y) simp
    next
      case False
      then show ?thesis by (cases y) auto
    qed
  qed
  have w1: "list_is s2 q (?L q) \<and> distinct (map fst (?L q)) \<and>
            (\<forall>y \<in> set (?L q). linked s2 q y \<and> y \<notin> {})"
    if q: "q < unat NUM_PAGES" for q
  proof -
    from wf1 q have l: "list_is s1 q (?L q)" and dm: "distinct (map fst (?L q))"
      and ly: "\<forall>y \<in> set (?L q). linked s1 q y" unfolding well_formed_def by blast+
    have same: "sources s2 (fst y) = sources s1 (fst y)" if "y \<in> set (?L q)" for y
      using np [OF q that] by (simp add: s2_def)
    then have "\<forall>y \<in> set (?L q). get_node s2 y = get_node s1 y"
      by (blast intro: get_node_other_source)
    from seg_frame [OF this] l have "list_is s2 q (?L q)"
      by (simp add: list_is_def s2_def)
    moreover have "\<forall>y \<in> set (?L q). linked s2 q y"
      using ly same by (metis linked_other_source)
    ultimately show ?thesis using dm by blast
  qed
  have w2: "num_page_refs c \<le> MAX_PAGE_REFS_PER_SOURCE \<and> p' < next_source s2 \<and>
        (\<forall>i < num_page_refs c. (p', i) \<in> {} \<or> (\<exists>q < unat NUM_PAGES. (p', i) \<in> set (?L q)))"
    if c: "sources s2 p' = Some c" for p' c
  proof -
    from c have ne: "p' \<noteq> p" and c1: "sources s1 p' = Some c"
      by (auto simp: s2_def split: if_splits)
    from wf1 c1 have 1: "num_page_refs c \<le> MAX_PAGE_REFS_PER_SOURCE" "p' < next_source s1"
      and 2: "\<forall>i < num_page_refs c. (p', i) \<in> ?U \<or> (\<exists>q < unat NUM_PAGES. (p', i) \<in> set (?L q))"
      unfolding well_formed_def by blast+
    from 2 ne have "\<forall>i < num_page_refs c. (\<exists>q < unat NUM_PAGES. (p', i) \<in> set (?L q))"
      by blast
    with 1 show ?thesis by (simp add: s2_def)
  qed
  from w1 w2 have "well_formed s2 ?L {}" unfolding well_formed_def by blast
  then have "well_formed s2 (\<lambda>q. filter (\<lambda>y. fst y \<noteq> p) (L q)) {}"
    by (rule well_formed_cong) (simp add: Leq)
  moreover have "\<forall>p'. p' \<noteq> p \<longrightarrow> rel_option stable (sources s p') (sources s2 p')"
    using ss1 by (simp add: same_sources_def s2_def)
  moreover have "next_source s2 = next_source s" "recycled s2 = recycled s @ [texture src]"
    using ss1 b(2) by (simp_all add: same_sources_def s2_def stable_def)
  ultimately show ?thesis using u by (simp add: s2_def)
qed

subsection \<open>InvalidatePage and the scan of LookupSource\<close>

lemma rel_option_stable_trans:
  "rel_option stable a b \<Longrightarrow> rel_option stable b c \<Longrightarrow> rel_option stable a c"
  by (cases a; cases b; cases c) (auto intro: stable_trans)

lemma well_formed_head_node:
  assumes wf: "well_formed s L U" and pn: "pn < unat NUM_PAGES" and L: "L pn = x # xs"
  shows "\<exists>nd src. get_node s x = Inr nd \<and> node_ref nd = Some (fst x) \<and>
           node_next nd = first_of xs None \<and> sources s (fst x) = Some src"
proof -
  from well_formed_linked_node [OF wf pn, of x] L obtain nd where
    nd: "get_node s x = Inr nd" "node_ref nd = Some (fst x)" by auto
  from wf pn L have "seg s None (head (m_page_sources s pn)) (x # xs) None"
    by (auto simp: well_formed_def list_is_def)
  with nd have "seg s (Some x) (node_next nd) xs None" by auto
  from seg_first [OF this] nd show ?thesis by (auto simp: get_node_Inr_iff)
qed

lemma InvalidatePage_loop_wf:
  assumes "well_formed s L {}" "pn < unat NUM_PAGES" "n = first_of (L pn) None"
  shows "\<exists>s'. InvalidatePage_loop n s = Some (Inr s') \<and>
           well_formed s' (\<lambda>q. filter (\<lambda>y. fst y \<notin> fst ` set (L pn)) (L q)) {} \<and>
           (\<forall>p \<in> fst ` set (L pn). sources s' p = None) \<and>
           (\<forall>p. p \<notin> fst ` set (L pn) \<longrightarrow> rel_option stable (sources s p) (sources s' p)) \<and>
           next_source s' = next_source s"
  using assms
proof (induction "length (L pn)" arbitrary: s L n)
  case 0
  then have "L pn = []" by simp
  with 0 show ?case
    by (subst InvalidatePage_loop.simps) (simp add: option.rel_refl)
next
  case (Suc k)
  then obtain x xs where L: "L pn = x # xs" by (cases "L pn") auto
  let ?p = "fst x"
  from well_formed_head_node [OF Suc.prems(1,2) L] obtain nd src where
    nd: "get_node s x = Inr nd" "node_ref nd = Some ?p" "node_next nd = first_of xs None"
    and src: "sources s ?p = Some src" by blast
  let ?L1 = "\<lambda>q. filter (\<lambda>y. fst y \<noteq> ?p) (L q)"
  from unlink_and_delete_wf [OF Suc.prems(1) src] obtain s1 where
    u: "unlink_and_delete ?p s = Inr s1" and wf1: "well_formed s1 ?L1 {}"
    and dead: "sources s1 ?p = None"
    and st: "\<forall>p'. p' \<noteq> ?p \<longrightarrow> rel_option stable (sources s p') (sources s1 p')"
    and nx: "next_source s1 = next_source s"
    by blast
  from Suc.prems(1,2) have "distinct (map fst (L pn))" unfolding well_formed_def by blast
  with L have dm: "distinct (map fst (x # xs))" by simp
  then have "fst x \<notin> fst ` set xs" by simp
  then have "\<forall>y \<in> set xs. fst y \<noteq> fst x" by (metis imageI)
  then have L1: "?L1 pn = xs" using L by (simp add: filter_id_conv)
  from Suc.hyps(2) L L1 have len: "k = length (?L1 pn)" by simp
  from nd(3) L1 have n1: "node_next nd = first_of (?L1 pn) None" by simp
  from Suc.hyps(1) [OF len wf1 Suc.prems(2) n1] obtain s2 where
    l: "InvalidatePage_loop (node_next nd) s1 = Some (Inr s2)"
    and wf2: "well_formed s2 (\<lambda>q. filter (\<lambda>y. fst y \<notin> fst ` set (?L1 pn)) (?L1 q)) {}"
    and dead2: "\<forall>p \<in> fst ` set (?L1 pn). sources s2 p = None"
    and st2: "\<forall>p. p \<notin> fst ` set (?L1 pn) \<longrightarrow> rel_option stable (sources s1 p) (sources s2 p)"
    and nx2: "next_source s2 = next_source s1"
    by blast
  have run: "InvalidatePage_loop n s = Some (Inr s2)"
    using Suc.prems(3) L nd u l by (subst InvalidatePage_loop.simps) simp
  have D: "fst ` set (L pn) = insert ?p (fst ` set xs)" using L by simp
  have "well_formed s2 (\<lambda>q. filter (\<lambda>y. fst y \<notin> fst ` set (L pn)) (L q)) {}"
    using wf2 by (rule well_formed_cong) (auto simp: L1 D intro: filter_cong)
  moreover have "sources s2 p = None" if "p \<in> fst ` set (L pn)" for p
  proof (cases "p \<in> fst ` set xs")
    case True
    with dead2 L1 show ?thesis by auto
  next
    case False
    with that D have "p = ?p" by auto
    moreover from dm have "?p \<notin> fst ` set xs" by auto
    ultimately have "rel_option stable (sources s1 ?p) (sources s2 p)" using st2 L1 by simp
    with dead \<open>p = ?p\<close> show ?thesis by (cases "sources s2 p") auto
  qed
  moreover have "rel_option stable (sources s p) (sources s2 p)" if "p \<notin> fst ` set (L pn)" for p
  proof -
    from that D have "p \<noteq> ?p" "p \<notin> fst ` set (?L1 pn)" by (auto simp: L1)
    with st st2 show ?thesis by (blast intro: rel_option_stable_trans)
  qed
  ultimately show ?case using run nx nx2 by auto
qed

lemma SourceList_clear_id:
  "head l = None \<Longrightarrow> tail l = None \<Longrightarrow> l\<lparr>head := None, tail := None\<rparr> = (l :: SourceList)"
  by (cases l) simp

lemma list_is_Nil: "list_is s pn [] \<longleftrightarrow> head (m_page_sources s pn) = None \<and> tail (m_page_sources s pn) = None"
  by (auto simp: list_is_def)

lemma set_list_clear_id:
  assumes "list_is s pn []" "pn < unat NUM_PAGES"
  shows "set_list pn (\<lambda>l. l\<lparr>head := None, tail := None\<rparr>) s = Inr s"
proof -
  from assms(1) have "(m_page_sources s pn)\<lparr>head := None, tail := None\<rparr> = m_page_sources s pn"
    by (simp add: list_is_Nil SourceList_clear_id)
  with assms(2) show ?thesis by (simp add: set_list_def)
qed

lemma InvalidatePage_wf:
  assumes wf: "well_formed s L {}" and pn: "pn < NUM_PAGES"
  shows "\<exists>s'. InvalidatePage gt pn s = Some (Inr s') \<and>
           well_formed s' (\<lambda>q. filter (\<lambda>y. fst y \<notin> fst ` set (L (unat pn))) (L q)) {} \<and>
           (\<forall>p \<in> fst ` set (L (unat pn)). sources s' p = None) \<and>
           (\<forall>p. p \<notin> fst ` set (L (unat pn)) \<longrightarrow> rel_option stable (sources s p) (sources s' p)) \<and>
           next_source s' = next_source s \<and>
           head (m_page_sources s' (unat pn)) = None \<and> tail (m_page_sources s' (unat pn)) = None \<and>
           InvalidatePage gt pn s' = Some (Inr s')"
proof -
  from pn have n: "unat pn < unat NUM_PAGES" by (simp add: word_less_nat_alt)
  from wf n have "list_is s (unat pn) (L (unat pn))" unfolding well_formed_def by blast
  then have "seg s None (head (m_page_sources s (unat pn))) (L (unat pn)) None"
    by (simp add: list_is_def)
  from seg_first [OF this] have h: "head (m_page_sources s (unat pn)) = first_of (L (unat pn)) None" .
  let ?L = "\<lambda>q. filter (\<lambda>y. fst y \<notin> fst ` set (L (unat pn))) (L q)"
  from InvalidatePage_loop_wf [OF wf n h] obtain s' where
    l: "InvalidatePage_loop (head (m_page_sources s (unat pn))) s = Some (Inr s')"
    and wf': "well_formed s' ?L {}"
    and rest: "\<forall>p \<in> fst ` set (L (unat pn)). sources s' p = None"
      "\<forall>p. p \<notin> fst ` set (L (unat pn)) \<longrightarrow> rel_option stable (sources s p) (sources s' p)"
      "next_source s' = next_source s"
    by blast
  have "?L (unat pn) = []" by (simp add: filter_empty_conv)
  with wf' n have e: "list_is s' (unat pn) []" unfolding well_formed_def by metis
  from set_list_clear_id [OF e n] l n pn
  have 1: "InvalidatePage gt pn s = Some (Inr s')"
    by (simp add: InvalidatePage_def get_list_def)
  from e have hd: "head (m_page_sources s' (unat pn)) = None" "tail (m_page_sources s' (unat pn)) = None"
    by (simp_all add: list_is_Nil)
  have "InvalidatePage_loop None s' = Some (Inr s')"
    by (subst InvalidatePage_loop.simps) simp
  with set_list_clear_id [OF e n] hd n pn
  have 2: "InvalidatePage gt pn s' = Some (Inr s')"
    by (simp add: InvalidatePage_def get_list_def)
  from 1 2 wf' rest hd show ?thesis by blast
qed

lemma LookupSource_loop_seg:
  assumes "seg s p n xs None"
    and "\<forall>x \<in> set xs. \<exists>nd src. get_node s x = Inr nd \<and> node_ref nd = Some (fst x) \<and>
           sources s (fst x) = Some src"
  shows "LookupSource_loop k n s =
           Some (Inr (map_option fst (find (\<lambda>x. key (the (sources s (fst x))) = k) xs)))"
  using assms
proof (induction xs arbitrary: p n)
  case Nil
  then show ?case by (subst LookupSource_loop.simps) simp
next
  case (Cons x xs)
  from Cons.prems obtain nd src where n: "n = Some x" and nd: "get_node s x = Inr nd"
    "node_ref nd = Some (fst x)" "sources s (fst x) = Some src"
    and sg: "seg s (Some x) (node_next nd) xs None"
    by auto
  from Cons.IH [OF sg] Cons.prems(2)
  have "LookupSource_loop k (node_next nd) s =
           Some (Inr (map_option fst (find (\<lambda>x. key (the (sources s (fst x))) = k) xs)))"
    by simp
  with n nd show ?case
    by (subst LookupSource_loop.simps) (simp add: get_source_def)
qed

subsection \<open>ListAppend\<close>

lemma rel_option_stable_iff:
  "rel_option stable (sources s p) (sources s' p) \<longleftrightarrow>
     header s' p = header s p \<and> (\<forall>i. tag s' (p, i) = tag s (p, i))"
  by (cases "sources s p"; cases "sources s' p") (auto simp: header_def tag_def stable_def)

lemma linked_iff:
  "linked s pn x \<longleftrightarrow>
     (\<exists>k n t. header s (fst x) = Some (k, n, t) \<and> snd x < n) \<and> tag s x = Some (Some (fst x), Some pn)"
  by (auto simp: linked_def header_def tag_def)

lemma header_set_node: "set_node n f s = Inr s' \<Longrightarrow> header s' = header s"
  by (auto simp: set_node_Inr_iff header_def fun_eq_iff)

lemma tag_set_node_keep:
  assumes "set_node n f s = Inr s'"
    and "\<And>nd. node_ref (f nd) = node_ref nd \<and> node_list (f nd) = node_list nd"
  shows "tag s' = tag s"
proof
  fix m show "tag s' m = tag s m"
    using assms by (cases m; cases n) (auto simp: set_node_Inr_iff tag_def)
qed

lemma tag_set_node_const:
  assumes "set_node n f s = Inr s'"
    and "\<And>nd. node_ref (f nd) = r \<and> node_list (f nd) = l"
  shows "tag s' m = (if m = n then Some (r, l) else tag s m)"
  using assms by (cases m; cases n) (auto simp: set_node_Inr_iff tag_def)

lemma header_set_list: "set_list pn f s = Inr s' \<Longrightarrow> header s' = header s"
  by (auto simp: set_list_Inr_iff header_def fun_eq_iff)

lemma tag_set_list: "set_list pn f s = Inr s' \<Longrightarrow> tag s' = tag s"
  by (auto simp: set_list_Inr_iff tag_def fun_eq_iff)

lemma set_list_fields:
  assumes "set_list pn f s = Inr s'"
  shows "sources s' = sources s" "next_source s' = next_source s" "recycled s' = recycled s"
    "m_page_sources s' q = (if q = pn then f (m_page_sources s pn) else m_page_sources s q)"
  using assms by (auto simp: set_list_Inr_iff)

lemma ListAppend_list:
  assumes li: "list_is s pn xs" and pn: "pn < unat NUM_PAGES" and x: "x \<notin> set xs"
    and nd0: "get_node s x = Inr nd0"
  shows "\<exists>s'. ListAppend pn item x s = Inr s' \<and> list_is s' pn (xs @ [x]) \<and>
           header s' = header s \<and>
           (\<forall>m. m \<noteq> x \<longrightarrow> tag s' m = tag s m) \<and> tag s' x = Some (Some item, Some pn) \<and>
           (\<forall>q. q \<noteq> pn \<longrightarrow> m_page_sources s' q = m_page_sources s q) \<and>
           (\<forall>m. m \<noteq> x \<and> Some m \<noteq> last_of None xs \<longrightarrow> get_node s' m = get_node s m) \<and>
           next_source s' = next_source s \<and> recycled s' = recycled s"
proof -
  let ?h = "head (m_page_sources s pn)"
  from li have sg: "seg s None ?h xs None" and tl: "tail (m_page_sources s pn) = last_of None xs"
    by (auto simp: list_is_def)
  let ?f1 = "\<lambda>n. n\<lparr>node_ref := Some item, node_list := Some pn, node_next := None\<rparr>"
  from set_node_ok [OF nd0] obtain s1 where e1: "set_node x ?f1 s = Inr s1" by blast
  have g1: "get_node s1 m = (if m = x then Inr (?f1 nd0) else get_node s m)" for m
    using get_node_set_node [OF e1, of m] nd0 by simp
  have t1: "tag s1 m = (if m = x then Some (Some item, Some pn) else tag s m)" for m
    by (rule tag_set_node_const [OF e1]) simp
  note f1 = set_node_fields [OF e1] header_set_node [OF e1]
  have g1x: "get_node s1 x = Inr (?f1 nd0)" using g1 by simp
  have sg1: "seg s1 None ?h xs None"
    using seg_frame [of xs s1 s] g1 x sg by metis
  let ?tail = "case last_of None xs of
         Some t \<Rightarrow>
           bindE (set_node x (\<lambda>n. n\<lparr>node_prev := Some t\<rparr>) s1) (\<lambda>s.
           bindE (set_node t (\<lambda>n. n\<lparr>node_next := Some x\<rparr>) s) (\<lambda>s.
           set_list pn (\<lambda>l. l\<lparr>tail := Some x\<rparr>) s))
       | None \<Rightarrow>
           bindE (set_node x (\<lambda>n. n\<lparr>node_prev := None\<rparr>) s1) (\<lambda>s.
           set_list pn (\<lambda>l. l\<lparr>head := Some x, tail := Some x\<rparr>) s)"
  have A: "ListAppend pn item x s = ?tail"
    using e1 pn tl f1 by (simp add: ListAppend_def get_list_def)
  show ?thesis
  proof (cases xs rule: rev_cases)
    case Nil
    from set_node_ok [OF g1x] obtain s2 where
      e2: "set_node x (\<lambda>n. n\<lparr>node_prev := None\<rparr>) s1 = Inr s2" by blast
    from pn obtain s3 where e3: "set_list pn (\<lambda>l. l\<lparr>head := Some x, tail := Some x\<rparr>) s2 = Inr s3"
      by (simp add: set_list_def)
    have g3: "get_node s3 m = (if m = x then Inr ((?f1 nd0)\<lparr>node_prev := None\<rparr>) else get_node s m)" for m
      using get_node_set_list [OF e3, of m] get_node_set_node [OF e2, of m] g1 by simp
    have "tag s2 = tag s1" by (rule tag_set_node_keep [OF e2]) simp
    with tag_set_list [OF e3] t1
    have t3: "tag s3 m = (if m = x then Some (Some item, Some pn) else tag s m)" for m
      by simp
    have "list_is s3 pn (xs @ [x])"
      using Nil g3 [of x] set_list_fields [OF e3] by (simp add: list_is_def)
    moreover have "ListAppend pn item x s = Inr s3"
      using A Nil e2 e3 by simp
    moreover have "header s3 = header s"
      using header_set_list [OF e3] header_set_node [OF e2] f1 by simp
    ultimately show ?thesis
      using g3 t3 set_list_fields [OF e3] set_node_fields [OF e2] f1 by auto
  next
    case (snoc xs' t)
    with x have tx: "t \<noteq> x" by auto
    from set_node_ok [OF g1x] obtain s2 where
      e2: "set_node x (\<lambda>n. n\<lparr>node_prev := Some t\<rparr>) s1 = Inr s2" by blast
    have g2: "get_node s2 m = (if m = x then Inr ((?f1 nd0)\<lparr>node_prev := Some t\<rparr>) else get_node s m)" for m
      using get_node_set_node [OF e2, of m] g1 by simp
    from sg snoc have "\<exists>nt. get_node s t = Inr nt" by (auto intro: seg_node)
    with g2 [of t] tx obtain nt where nt: "get_node s2 t = Inr nt" by auto
    from set_node_ok [OF nt] obtain s3 where
      e3: "set_node t (\<lambda>n. n\<lparr>node_next := Some x\<rparr>) s2 = Inr s3" by blast
    from pn obtain s4 where e4: "set_list pn (\<lambda>l. l\<lparr>tail := Some x\<rparr>) s3 = Inr s4"
      by (simp add: set_list_def)
    have g4x: "get_node s4 x = Inr ((?f1 nd0)\<lparr>node_prev := Some t\<rparr>)"
      using get_node_set_list [OF e4, of x] get_node_set_node [OF e3, of x] g2 [of x] tx by simp
    have g4: "get_node s4 m = get_node s m" if "m \<noteq> x" "m \<noteq> t" for m
      using get_node_set_list [OF e4, of m] get_node_set_node [OF e3, of m] g2 [of m] that by simp
    have "tag s2 = tag s1" by (rule tag_set_node_keep [OF e2]) simp
    moreover have "tag s3 = tag s2" by (rule tag_set_node_keep [OF e3]) simp
    ultimately have t4: "tag s4 m = (if m = x then Some (Some item, Some pn) else tag s m)" for m
      using tag_set_list [OF e4] t1 by simp
    have sg2: "seg s2 None ?h (xs' @ [t]) None"
      using seg_frame [of xs s2 s] g2 x sg snoc by metis
    have d: "t \<notin> set xs'"
    proof
      assume "t \<in> set xs'"
      then obtain as bs where "xs' = as @ t # bs" by (auto dest: split_list)
      with sg snoc have "seg s None ?h (as @ t # (bs @ [t])) None" by simp
      from seg_middle [OF this] have "\<exists>nd. get_node s t = Inr nd \<and> node_next nd = first_of (bs @ [t]) None"
        by blast
      moreover from sg snoc have "\<exists>nd. get_node s t = Inr nd \<and> node_next nd = None"
        by (auto simp: seg_append)
      ultimately show False by (cases bs) auto
    qed
    from seg_set_next_last [OF sg2 d e3] have sg3: "seg s3 None ?h (xs' @ [t]) (Some x)" .
    have "get_node s3 x = Inr ((?f1 nd0)\<lparr>node_prev := Some t\<rparr>)"
      using get_node_set_node [OF e3, of x] g2 [of x] tx by simp
    then have "seg s3 (Some t) (Some x) [x] None" by simp
    with sg3 have "seg s3 None ?h ((xs' @ [t]) @ [x]) None"
      by (subst seg_append) auto
    then have "seg s4 None ?h (xs @ [x]) None"
      using seg_frame [of "xs @ [x]" s4 s3] get_node_set_list [OF e4] snoc by simp
    then have "list_is s4 pn (xs @ [x])"
      using set_list_fields [OF e4] set_node_fields [OF e3] set_node_fields [OF e2] f1
      by (simp add: list_is_def)
    moreover have "ListAppend pn item x s = Inr s4"
      using A snoc e2 e3 e4 by simp
    moreover have "header s4 = header s"
      using header_set_list [OF e4] header_set_node [OF e3] header_set_node [OF e2] f1 by simp
    ultimately show ?thesis
      using g4 t4 snoc set_list_fields [OF e4] set_node_fields [OF e3] set_node_fields [OF e2] f1
      by auto
  qed
qed

lemma linked_transfer:
  assumes "header s' (fst y) = header s (fst y)" "tag s' y = tag s y"
  shows "linked s' q y = linked s q y"
  using assms by (simp add: linked_iff)

lemma header_Some_iff:
  "header s p = Some (k, n, t) \<longleftrightarrow>
     (\<exists>a. sources s p = Some a \<and> key a = k \<and> num_page_refs a = n \<and> texture a = t)"
  by (auto simp: header_def)

lemma last_of_in_set: "last_of None xs = Some m \<Longrightarrow> m \<in> set xs"
  by (cases xs rule: rev_cases) (auto simp: last_of_def)

lemma ListAppend_wf:
  assumes wf: "well_formed s L U" and pn: "pn < unat NUM_PAGES" and x: "x \<in> U"
    and live: "sources s (fst x) = Some a" "snd x < num_page_refs a"
    and np: "fst x \<notin> fst ` set (L pn)"
  shows "\<exists>s'. ListAppend pn (fst x) x s = Inr s' \<and> well_formed s' (L(pn := L pn @ [x])) (U - {x}) \<and>
           header s' = header s \<and> (\<forall>m. m \<noteq> x \<longrightarrow> tag s' m = tag s m) \<and>
           tag s' x = Some (Some (fst x), Some pn) \<and>
           next_source s' = next_source s \<and> recycled s' = recycled s"
proof -
  from wf pn have li: "list_is s pn (L pn)" unfolding well_formed_def by blast
  from np have xn: "x \<notin> set (L pn)" by (metis imageI)
  from wf live(1) have "num_page_refs a \<le> MAX_PAGE_REFS_PER_SOURCE" unfolding well_formed_def by blast
  with live have nd0: "get_node s x = Inr (page_refs a (snd x))"
    by (simp add: get_node_def)
  from ListAppend_list [OF li pn xn nd0, of "fst x"] obtain s' where
    *: "ListAppend pn (fst x) x s = Inr s' \<and> list_is s' pn (L pn @ [x]) \<and>
           header s' = header s \<and>
           (\<forall>m. m \<noteq> x \<longrightarrow> tag s' m = tag s m) \<and> tag s' x = Some (Some (fst x), Some pn) \<and>
           (\<forall>q. q \<noteq> pn \<longrightarrow> m_page_sources s' q = m_page_sources s q) \<and>
           (\<forall>m. m \<noteq> x \<and> Some m \<noteq> last_of None (L pn) \<longrightarrow> get_node s' m = get_node s m) \<and>
           next_source s' = next_source s \<and> recycled s' = recycled s"
    by (elim exE)
  from * have A: "ListAppend pn (fst x) x s = Inr s'" and li': "list_is s' pn (L pn @ [x])"
    and h: "header s' = header s" and t: "\<forall>m. m \<noteq> x \<longrightarrow> tag s' m = tag s m"
    and tx: "tag s' x = Some (Some (fst x), Some pn)"
    and fr: "\<forall>q. q \<noteq> pn \<longrightarrow> m_page_sources s' q = m_page_sources s q"
    and g: "\<forall>m. m \<noteq> x \<and> Some m \<noteq> last_of None (L pn) \<longrightarrow> get_node s' m = get_node s m"
    and nr: "next_source s' = next_source s" "recycled s' = recycled s"
    by blast+
  let ?L = "L(pn := L pn @ [x])"
  have notU: "y \<noteq> x" if "q < unat NUM_PAGES" "y \<in> set (L q)" for q y
    using wf that x unfolding well_formed_def by blast
  have lk: "linked s' q y" if "q < unat NUM_PAGES" "y \<in> set (L q)" for q y
  proof -
    from wf that have "linked s q y" unfolding well_formed_def by blast
    moreover from notU [OF that] t have "tag s' y = tag s y" by blast
    moreover from h have "header s' (fst y) = header s (fst y)" by simp
    ultimately show ?thesis using linked_transfer [of s' y s q] by blast
  qed
  have lx: "linked s' pn x"
    using tx h live by (auto simp: linked_iff header_def)
  have w1: "list_is s' q (?L q) \<and> distinct (map fst (?L q)) \<and>
            (\<forall>y \<in> set (?L q). linked s' q y \<and> y \<notin> U - {x})"
    if q: "q < unat NUM_PAGES" for q
  proof (cases "q = pn")
    case True
    from wf pn have "distinct (map fst (L pn))" and nu: "\<forall>y \<in> set (L pn). y \<notin> U"
      unfolding well_formed_def by blast+
    with np have "distinct (map fst (L pn @ [x]))" by simp
    moreover have "linked s' pn y \<and> y \<notin> U - {x}" if "y \<in> set (L pn @ [x])" for y
    proof (cases "y = x")
      case True
      with lx show ?thesis by simp
    next
      case False
      with that have "y \<in> set (L pn)" by simp
      with lk [OF pn] nu show ?thesis by blast
    qed
    ultimately show ?thesis using True li' by simp
  next
    case False
    from wf q have lq: "list_is s q (L q)" and dq: "distinct (map fst (L q))"
      and uq: "\<forall>y \<in> set (L q). y \<notin> U" unfolding well_formed_def by blast+
    have "get_node s' y = get_node s y" if y: "y \<in> set (L q)" for y
    proof -
      have "Some y \<noteq> last_of None (L pn)"
      proof
        assume "Some y = last_of None (L pn)"
        then have "y \<in> set (L pn)" by (simp add: last_of_in_set)
        from well_formed_unique_page [OF wf q pn y this] False show False by simp
      qed
      with notU [OF q y] g show ?thesis by blast
    qed
    then have "\<forall>y \<in> set (L q). get_node s' y = get_node s y" by blast
    from seg_frame [OF this] lq fr False have "list_is s' q (L q)"
      by (simp add: list_is_def)
    moreover have "linked s' q y \<and> y \<notin> U - {x}" if "y \<in> set (L q)" for y
      using that uq lk [OF q] by blast
    ultimately show ?thesis using False dq by simp
  qed
  have w2: "num_page_refs b \<le> MAX_PAGE_REFS_PER_SOURCE \<and> p < next_source s' \<and>
        (\<forall>i < num_page_refs b. (p, i) \<in> U - {x} \<or> (\<exists>q < unat NUM_PAGES. (p, i) \<in> set (?L q)))"
    if b: "sources s' p = Some b" for p b
  proof -
    from b have "header s' p = Some (key b, num_page_refs b, texture b)"
      by (simp add: header_def)
    with h have "header s p = Some (key b, num_page_refs b, texture b)" by simp
    then obtain c where c: "sources s p = Some c" "num_page_refs c = num_page_refs b"
      by (auto simp: header_Some_iff)
    from wf c(1) have 1: "num_page_refs c \<le> MAX_PAGE_REFS_PER_SOURCE" "p < next_source s"
      and 2: "\<forall>i < num_page_refs c. (p, i) \<in> U \<or> (\<exists>q < unat NUM_PAGES. (p, i) \<in> set (L q))"
      unfolding well_formed_def by blast+
    have "(p, i) \<in> U - {x} \<or> (\<exists>q < unat NUM_PAGES. (p, i) \<in> set (?L q))"
      if "i < num_page_refs c" for i
    proof (cases "(p, i) = x")
      case True
      with pn show ?thesis by auto
    next
      case False
      from 2 that consider "(p, i) \<in> U" | q where "q < unat NUM_PAGES" "(p, i) \<in> set (L q)"
        by blast
      then show ?thesis
      proof cases
        case 1
        with False show ?thesis by simp
      next
        case 2
        then have "(p, i) \<in> set (?L q)" by auto
        with 2 show ?thesis by blast
      qed
    qed
    with 1 c nr show ?thesis by simp
  qed
  from w1 w2 have "well_formed s' ?L (U - {x})" unfolding well_formed_def by blast
  with A h t tx nr show ?thesis by blast
qed

subsection \<open>LoopPages\<close>

lemma bindO_case:
  "bindO r f = (case r of None \<Rightarrow> None | Some (Inl e) \<Rightarrow> Some (Inl e) | Some (Inr v) \<Rightarrow> f v)"
  by (simp add: bindO_def)

lemma foldO_append: "foldO f (xs @ ys) s = bindO (foldO f xs s) (foldO f ys)"
  by (induction xs arbitrary: s) (auto simp: bindO_case split: option.splits sum.splits)

lemma LoopPages_x_fold:
  "LoopPages_x f pn ypn a b s = foldO f (replicate (Suc b - a) pn) s"
proof (induction f pn ypn a b s rule: LoopPages_x.induct)
  case (1 f pn ypn a b s)
  show ?case
  proof (cases "a \<le> b")
    case True
    then have r: "replicate (Suc b - a) pn = pn # replicate (Suc b - Suc a) pn"
      by (simp add: Suc_diff_le)
    have "LoopPages_x f pn ypn a b s =
            bindO (f pn s) (LoopPages_x f pn (ypn + 1) (Suc a) b)"
      using True by (subst LoopPages_x.simps) (simp add: bindO_case)
    also have "\<dots> = bindO (f pn s) (foldO f (replicate (Suc b - Suc a) pn))"
    proof (cases "f pn s")
      case None
      then show ?thesis by simp
    next
      case (Some r)
      show ?thesis
      proof (cases r)
        case (Inl e)
        with Some show ?thesis by simp
      next
        case (Inr s')
        from 1 [OF True Some Inr] Some Inr show ?thesis by simp
      qed
    qed
    finally show ?thesis by (simp only: r foldO.simps)
  next
    case False
    then show ?thesis by (subst LoopPages_x.simps) simp
  qed
qed

lemma LoopPages_y_fold:
  "LoopPages_y f pn py ey sx ex s =
     foldO f (concat (map (\<lambda>j. replicate (Suc ex - sx) (pn + of_nat j * VRAM_PAGES_WIDE))
                        [0 ..< Suc ey - py])) s"
proof (induction f pn py ey sx ex s rule: LoopPages_y.induct)
  case (1 f pn py ey sx ex s)
  show ?case
  proof (cases "py \<le> ey")
    case True
    let ?row = "\<lambda>pn j. replicate (Suc ex - sx) (pn + of_nat j * VRAM_PAGES_WIDE)"
    let ?js = "[0 ..< Suc ey - Suc py]"
    from True have u: "[0 ..< Suc ey - py] = 0 # map Suc ?js"
      by (simp add: Suc_diff_le upt_conv_Cons map_Suc_upt del: upt_Suc)
    have r: "?row pn (Suc j) = ?row (pn + VRAM_PAGES_WIDE) j" for j
    proof -
      have "pn + of_nat (Suc j) * VRAM_PAGES_WIDE = pn + VRAM_PAGES_WIDE + of_nat j * VRAM_PAGES_WIDE"
        by (simp add: distrib_right)
      then show ?thesis by (rule arg_cong)
    qed
    have m: "map (?row pn \<circ> Suc) xs = map (?row (pn + VRAM_PAGES_WIDE)) xs" for xs
      by (rule map_cong [OF refl]) (simp only: comp_def r)
    have z: "?row pn 0 = replicate (Suc ex - sx) pn" by simp
    have "concat (map (?row pn) (0 # map Suc ?js)) =
            ?row pn 0 @ concat (map (?row pn \<circ> Suc) ?js)"
      by (simp only: list.map concat.simps map_map)
    then have c: "concat (map (?row pn) [0 ..< Suc ey - py]) =
        replicate (Suc ex - sx) pn @ concat (map (?row (pn + VRAM_PAGES_WIDE)) ?js)"
      by (simp only: u m z)
    have "LoopPages_y f pn py ey sx ex s =
            bindO (foldO f (replicate (Suc ex - sx) pn) s)
              (LoopPages_y f (pn + VRAM_PAGES_WIDE) (Suc py) ey sx ex)"
      using True by (subst LoopPages_y.simps) (simp add: bindO_case LoopPages_x_fold)
    also have "\<dots> = bindO (foldO f (replicate (Suc ex - sx) pn) s)
              (foldO f (concat (map (?row (pn + VRAM_PAGES_WIDE)) ?js)))"
    proof (cases "foldO f (replicate (Suc ex - sx) pn) s")
      case None
      then show ?thesis by simp
    next
      case (Some r)
      show ?thesis
      proof (cases r)
        case (Inl e)
        with Some show ?thesis by simp
      next
        case (Inr s')
        from Some have "LoopPages_x f pn pn sx ex s = Some r" by (simp add: LoopPages_x_fold)
        from 1 [OF True this Inr] Some Inr show ?thesis by simp
      qed
    qed
    finally show ?thesis by (simp only: c foldO_append)
  next
    case False
    then show ?thesis by (subst LoopPages_y.simps) simp
  qed
qed

lemma LoopPages_fold:
  "LoopPages gt x y width height f s =
     (if debug_build gt \<and> \<not> (width > 0 \<and> height > 0) then Some (Inl AssertionFailed)
      else if debug_build gt \<and> \<not> ((x + width) \<le> VRAM_WIDTH \<and> (y + height) \<le> VRAM_HEIGHT)
      then Some (Inl AssertionFailed)
      else foldO f (LoopPages_calls x y width height) s)"
proof -
  have "LoopPages_y f (PageIndex (x div VRAM_PAGE_WIDTH) (y div VRAM_PAGE_HEIGHT))
          (unat (y div VRAM_PAGE_HEIGHT)) (unat ((y + (height - 1)) div VRAM_PAGE_HEIGHT))
          (unat (x div VRAM_PAGE_WIDTH)) (unat ((x + (width - 1)) div VRAM_PAGE_WIDTH)) s =
        foldO f (LoopPages_calls x y width height) s"
    by (simp only: LoopPages_calls_def LoopPages_y_fold Let_def)
  then show ?thesis
    by (simp only: LoopPages_def Let_def)
qed

lemma PageIndex_row: "PageIndex sx sy + of_nat j * VRAM_PAGES_WIDE = PageIndex sx (sy + of_nat j)"
  by (simp add: PageIndex_def distrib_right)

lemma in_covering_pages:
  "p \<in> set (covering_pages x y w h) \<longleftrightarrow> p < 32 \<and> tile_meets p x y w h"
  by (auto simp: covering_pages_def)

lemma unat_PageIndex_small:
  assumes "unat px < 16" "unat py < 2"
  shows "unat (PageIndex px py) = unat py * 16 + unat px"
proof -
  have W: "VRAM_PAGES_WIDE = 16"
    by (simp add: VRAM_PAGES_WIDE_def VRAM_WIDTH_def VRAM_PAGE_WIDTH_def)
  from assms have "unat py * unat (16 :: u32) < 2 ^ LENGTH(32)" by simp
  then have m: "unat (py * 16) = unat py * unat (16 :: u32)" by (simp only: unat_mult_lem)
  from assms have "unat (py * 16) + unat px < 2 ^ LENGTH(32)" by (simp add: m)
  then have "unat (py * 16 + px) = unat (py * 16) + unat px" by (simp only: unat_add_lem)
  then show ?thesis by (simp add: PageIndex_def W m)
qed

lemma div_bounds_64: "64 * (x div 64) \<le> (x :: nat)" "x < 64 * (x div 64) + 64"
proof -
  have "x = 64 * (x div 64) + x mod 64" by simp
  moreover have "x mod 64 < 64" by simp
  ultimately show "64 * (x div 64) \<le> x" "x < 64 * (x div 64) + 64" by linarith+
qed

lemma div_bounds_256: "256 * (y div 256) \<le> (y :: nat)" "y < 256 * (y div 256) + 256"
proof -
  have "y = 256 * (y div 256) + y mod 256" by simp
  moreover have "y mod 256 < 256" by simp
  ultimately show "256 * (y div 256) \<le> y" "y < 256 * (y div 256) + 256" by linarith+
qed

lemma covering_rows:
  assumes x: "x < 1024" and w: "0 < w" and h: "0 < h" and yh: "y + h \<le> 512"
    and r: "y div 256 \<le> r" "r \<le> (y + h - 1) div 256"
  shows "r * 16 + x div 64 \<in> set (covering_pages x y w h)"
proof -
  define a where "a = x div 64"
  from x have a: "a < 16" by (simp add: a_def)
  have m: "(r * 16 + a) mod 16 = a" "(r * 16 + a) div 16 = r" using a by simp_all
  from yh h have "(y + h - 1) div 256 \<le> 511 div 256" by (intro div_le_mono) simp
  with r have r2: "r < 2" by simp
  have x1: "64 * a \<le> x" "x < 64 * a + 64" unfolding a_def by (rule div_bounds_64)+
  have "256 * r \<le> 256 * ((y + h - 1) div 256)" using r by simp
  also have "\<dots> \<le> y + h - 1" by (rule div_bounds_256)
  finally have y1: "256 * r < y + h" using h by simp
  have "y < 256 * (y div 256) + 256" by (rule div_bounds_256)
  also have "\<dots> \<le> 256 * r + 256" using r by simp
  finally have y2: "y < 256 * r + 256" .
  from x1 w y1 y2 have "tile_meets (r * 16 + a) x y w h"
    unfolding tile_meets_def by (simp only: m) simp
  moreover from a r2 have "r * 16 + a < 32" by simp
  ultimately show ?thesis by (simp add: in_covering_pages a_def)
qed

lemma unat_div_64: "unat (x div VRAM_PAGE_WIDTH) = unat x div 64"
  by (simp add: unat_div VRAM_PAGE_WIDTH_def)

lemma unat_div_256: "unat (y div VRAM_PAGE_HEIGHT) = unat y div 256"
  by (simp add: unat_div VRAM_PAGE_HEIGHT_def)

lemma unat_last_coordinate:
  assumes "0 < unat (w :: u32)" "unat x + unat w \<le> 1024"
  shows "unat (x + (w - 1)) = unat x + unat w - 1"
proof -
  from assms(1) have "1 \<le> w" by (simp add: word_le_nat_alt)
  then have w1: "unat (w - 1) = unat w - 1" by (simp add: unat_sub)
  with assms have "unat x + unat (w - 1) < 2 ^ LENGTH(32)" by simp
  then have "unat (x + (w - 1)) = unat x + unat (w - 1)" by (simp only: unat_add_lem)
  with w1 assms(1) show ?thesis by simp
qed

lemma LoopPages_calls_covering:
  assumes w: "0 < unat w" and h: "0 < unat h"
    and xw: "unat x + unat w \<le> 1024" and yh: "unat y + unat h \<le> 512"
    and c: "c \<in> set (LoopPages_calls x y w h)"
  shows "unat c \<in> set (covering_pages (unat x) (unat y) (unat w) (unat h))"
proof -
  let ?sx = "x div VRAM_PAGE_WIDTH" and ?sy = "y div VRAM_PAGE_HEIGHT"
  let ?ey = "(y + (h - 1)) div VRAM_PAGE_HEIGHT"
  from c obtain j where j: "j < Suc (unat ?ey) - unat ?sy"
    and cj: "c = PageIndex ?sx ?sy + of_nat j * VRAM_PAGES_WIDE"
    by (auto simp: LoopPages_calls_def Let_def)
  have h': "unat y + unat h \<le> 1024" using yh by simp
  have ey: "unat ?ey = (unat y + unat h - 1) div 256"
    by (simp add: unat_div_256 unat_last_coordinate [OF h h'])
  have sy: "unat ?sy = unat y div 256" by (rule unat_div_256)
  from yh h have "(unat y + unat h - 1) div 256 \<le> 511 div 256" by (intro div_le_mono) simp
  then have ey1: "unat ?ey \<le> 1" by (simp add: ey)
  with j have r1: "unat ?sy + j \<le> unat ?ey" by simp
  with ey1 have r2: "unat ?sy + j < 2" by simp
  then have j2: "j < 2" by simp
  from j2 have "j = 0 \<or> j = 1" by auto
  then have "unat (of_nat j :: u32) = j" by auto
  with r2 have "unat ?sy + unat (of_nat j :: u32) < 2 ^ LENGTH(32)" by simp
  then have "unat (?sy + of_nat j) = unat ?sy + unat (of_nat j :: u32)"
    by (simp only: unat_add_lem)
  with \<open>unat (of_nat j :: u32) = j\<close> have row: "unat (?sy + of_nat j) = unat ?sy + j" by simp
  from xw w have "unat x < 1024" by simp
  then have sx: "unat ?sx < 16" by (simp add: unat_div_64)
  from cj have "c = PageIndex ?sx (?sy + of_nat j)" by (simp only: PageIndex_row)
  with unat_PageIndex_small [OF sx, of "?sy + of_nat j"] r2 row
  have "unat c = (unat y div 256 + j) * 16 + unat x div 64"
    by (simp add: sy unat_div_64)
  moreover have "(unat y div 256 + j) * 16 + unat x div 64 \<in>
      set (covering_pages (unat x) (unat y) (unat w) (unat h))"
  proof (rule covering_rows [OF \<open>unat x < 1024\<close> w h yh])
    show "unat y div 256 \<le> unat y div 256 + j" by simp
    from r1 show "unat y div 256 + j \<le> (unat y + unat h - 1) div 256" by (simp add: sy ey)
  qed
  ultimately show ?thesis by simp
qed

lemma LoopPages_calls_first:
  assumes "x div VRAM_PAGE_WIDTH \<le> (x + (width - 1)) div VRAM_PAGE_WIDTH"
    and "y div VRAM_PAGE_HEIGHT \<le> (y + (height - 1)) div VRAM_PAGE_HEIGHT"
  shows "\<exists>cs. LoopPages_calls x y width height =
           PageIndex (x div VRAM_PAGE_WIDTH) (y div VRAM_PAGE_HEIGHT) # cs"
proof -
  let ?sx = "x div VRAM_PAGE_WIDTH" and ?sy = "y div VRAM_PAGE_HEIGHT"
  let ?ex = "(x + (width - 1)) div VRAM_PAGE_WIDTH" and ?ey = "(y + (height - 1)) div VRAM_PAGE_HEIGHT"
  from assms have a: "unat ?sx \<le> unat ?ex" "unat ?sy \<le> unat ?ey"
    by (simp_all add: word_le_nat_alt)
  then have 1: "[0 ..< Suc (unat ?ey) - unat ?sy] = 0 # [1 ..< Suc (unat ?ey) - unat ?sy]"
    by (simp add: upt_conv_Cons Suc_diff_le del: upt_Suc)
  from a have 2: "Suc (unat ?ex) - unat ?sx = Suc (unat ?ex - unat ?sx)"
    by (simp add: Suc_diff_le)
  show ?thesis
    unfolding LoopPages_calls_def Let_def 1 2 by simp
qed

subsection \<open>add\_page\_ref\<close>

lemma tag_Some_iff:
  "tag s (p, i) = Some (r, l) \<longleftrightarrow>
     (\<exists>a. sources s p = Some a \<and> node_ref (page_refs a i) = r \<and> node_list (page_refs a i) = l)"
  by (auto simp: tag_def)

lemma well_formed_num_only:
  assumes wf: "well_formed s L {}" and src: "sources s p = Some a"
    and lt: "num_page_refs a < MAX_PAGE_REFS_PER_SOURCE"
  shows "well_formed (s\<lparr>sources := (sources s)(p \<mapsto> a\<lparr>num_page_refs := num_page_refs a + 1\<rparr>)\<rparr>) L
           {(p, num_page_refs a)}"
proof -
  let ?s = "s\<lparr>sources := (sources s)(p \<mapsto> a\<lparr>num_page_refs := num_page_refs a + 1\<rparr>)\<rparr>"
  have g: "get_node ?s y = get_node s y" for y
    using src by (auto simp: get_node_def)
  have lk: "linked ?s q y" if "linked s q y" for q y
    using that src by (auto simp: linked_def)
  have w1: "list_is ?s q (L q) \<and> distinct (map fst (L q)) \<and>
            (\<forall>y \<in> set (L q). linked ?s q y \<and> y \<notin> {(p, num_page_refs a)})"
    if q: "q < unat NUM_PAGES" for q
  proof -
    from wf q have l: "list_is s q (L q)" and d: "distinct (map fst (L q))"
      and ly: "\<forall>y \<in> set (L q). linked s q y" unfolding well_formed_def by blast+
    from seg_frame [of "L q" ?s s] g l have "list_is ?s q (L q)"
      by (simp add: list_is_def)
    moreover have "y \<noteq> (p, num_page_refs a)" if "y \<in> set (L q)" for y
    proof
      assume "y = (p, num_page_refs a)"
      with ly that have "linked s q (p, num_page_refs a)" by blast
      with src show False by (simp add: linked_def)
    qed
    ultimately show ?thesis using d ly lk by blast
  qed
  have w2: "num_page_refs b \<le> MAX_PAGE_REFS_PER_SOURCE \<and> p' < next_source ?s \<and>
        (\<forall>i < num_page_refs b. (p', i) \<in> {(p, num_page_refs a)} \<or>
            (\<exists>q < unat NUM_PAGES. (p', i) \<in> set (L q)))"
    if b: "sources ?s p' = Some b" for p' b
  proof (cases "p' = p")
    case True
    with b have b': "b = a\<lparr>num_page_refs := num_page_refs a + 1\<rparr>" by simp
    from wf src have 1: "p < next_source s"
      and 2: "\<forall>i < num_page_refs a. (\<exists>q < unat NUM_PAGES. (p, i) \<in> set (L q))"
      unfolding well_formed_def by blast+
    have "(p, i) \<in> {(p, num_page_refs a)} \<or> (\<exists>q < unat NUM_PAGES. (p, i) \<in> set (L q))"
      if "i < num_page_refs a + 1" for i
      using that 2 by (cases "i = num_page_refs a") auto
    with 1 lt True b' show ?thesis by simp
  next
    case False
    with b have "sources s p' = Some b" by simp
    with wf have "num_page_refs b \<le> MAX_PAGE_REFS_PER_SOURCE" "p' < next_source s"
      "\<forall>i < num_page_refs b. (\<exists>q < unat NUM_PAGES. (p', i) \<in> set (L q))"
      unfolding well_formed_def by blast+
    then show ?thesis by simp
  qed
  from w1 w2 show ?thesis unfolding well_formed_def by blast
qed

lemma add_page_ref_step:
  assumes wf: "well_formed s L {}" and src: "sources s p = Some a"
    and len: "length refns = MAX_PAGE_REFS_PER_SOURCE"
    and R: "\<forall>i < num_page_refs a. tag s (p, i) = Some (Some p, Some (unat (refns ! i)))"
    and run: "add_page_ref p pn (s, refns) = Inr (s', refns')"
  shows "\<exists>L' b. well_formed s' L' {} \<and> sources s' p = Some b \<and> key b = key a \<and> texture b = texture a \<and>
           length refns' = MAX_PAGE_REFS_PER_SOURCE \<and>
           (\<forall>i < num_page_refs b. tag s' (p, i) = Some (Some p, Some (unat (refns' ! i)))) \<and>
           num_page_refs a \<le> num_page_refs b \<and>
           (\<forall>i < num_page_refs a. refns' ! i = refns ! i) \<and>
           (\<forall>i. num_page_refs a \<le> i \<and> i < num_page_refs b \<longrightarrow> refns' ! i = pn) \<and>
           (\<exists>i < num_page_refs b. refns' ! i = pn) \<and>
           (\<forall>p'. p' \<noteq> p \<longrightarrow> header s' p' = header s p') \<and>
           (\<forall>p' i. p' \<noteq> p \<longrightarrow> tag s' (p', i) = tag s (p', i)) \<and>
           next_source s' = next_source s \<and> recycled s' = recycled s \<and> pn < NUM_PAGES"
proof (cases "pn \<in> set (take (num_page_refs a) refns)")
  case True
  with run src have e: "s' = s" "refns' = refns"
    by (simp_all add: add_page_ref_def get_source_def)
  from True obtain i where i: "i < num_page_refs a" "refns ! i = pn"
    by (auto simp: in_set_conv_nth)
  with R have t: "tag s (p, i) = Some (Some p, Some (unat pn))" by auto
  from wf src i(1) obtain q where q: "q < unat NUM_PAGES" "(p, i) \<in> set (L q)"
    unfolding well_formed_def by blast
  with wf have "linked s q (p, i)" unfolding well_formed_def by blast
  with t have "q = unat pn" by (simp add: linked_iff)
  with q have "pn < NUM_PAGES" by (simp add: word_less_nat_alt)
  with e wf src len R i show ?thesis by auto
next
  case False
  let ?ri = "num_page_refs a"
  let ?s1 = "s\<lparr>sources := (sources s)(p \<mapsto> a\<lparr>num_page_refs := ?ri + 1\<rparr>)\<rparr>"
  from run src False have ri: "?ri < MAX_PAGE_REFS_PER_SOURCE" and pn: "pn < NUM_PAGES"
    and A: "bindE (ListAppend (unat pn) p (p, ?ri) ?s1) (\<lambda>s. Inr (s, refns[?ri := pn])) = Inr (s', refns')"
    by (auto simp: add_page_ref_def get_source_def Let_def split: if_splits)
  from A have A': "ListAppend (unat pn) p (p, ?ri) ?s1 = Inr s'" and r': "refns' = refns[?ri := pn]"
    by (auto simp: bindE_Inr_iff)
  from pn have n: "unat pn < unat NUM_PAGES" by (simp add: word_less_nat_alt)
  have wf1: "well_formed ?s1 L {(p, ?ri)}" by (rule well_formed_num_only [OF wf src ri])
  have np: "fst (p, ?ri) \<notin> fst ` set (L (unat pn))"
  proof
    assume "fst (p, ?ri) \<in> fst ` set (L (unat pn))"
    then obtain i where i: "(p, i) \<in> set (L (unat pn))" by force
    with wf n have l: "linked s (unat pn) (p, i)" unfolding well_formed_def by blast
    with src have "i < ?ri" and "tag s (p, i) = Some (Some p, Some (unat pn))"
      by (auto simp: linked_def tag_def)
    with R have "unat (refns ! i) = unat pn" by auto
    then have "refns ! i = pn" by (simp add: word_unat_eq_iff)
    with \<open>i < ?ri\<close> ri len have "pn \<in> set (take ?ri refns)"
      by (auto simp: in_set_conv_nth)
    with False show False by blast
  qed
  have live1: "sources ?s1 (fst (p, ?ri)) = Some (a\<lparr>num_page_refs := ?ri + 1\<rparr>)"
    "snd (p, ?ri) < num_page_refs (a\<lparr>num_page_refs := ?ri + 1\<rparr>)"
    by simp_all
  from ListAppend_wf [OF wf1 n _ live1 np] A' have
    wf': "well_formed s' (L(unat pn := L (unat pn) @ [(p, ?ri)])) ({(p, ?ri)} - {(p, ?ri)})"
    and h: "header s' = header ?s1"
    and t: "\<forall>m. m \<noteq> (p, ?ri) \<longrightarrow> tag s' m = tag ?s1 m"
    and tx: "tag s' (p, ?ri) = Some (Some p, Some (unat pn))"
    and nr: "next_source s' = next_source ?s1" "recycled s' = recycled ?s1"
    by auto
  from h have "header s' p = Some (key a, ?ri + 1, texture a)"
    by (simp add: header_def)
  then obtain b where b: "sources s' p = Some b" "key b = key a" "num_page_refs b = ?ri + 1"
    "texture b = texture a"
    by (auto simp: header_Some_iff)
  have t1: "tag ?s1 m = tag s m" for m
    using src by (cases m) (auto simp: tag_def)
  have R': "tag s' (p, i) = Some (Some p, Some (unat (refns' ! i)))" if "i < num_page_refs b" for i
  proof (cases "i = ?ri")
    case True
    with tx r' ri len show ?thesis by simp
  next
    case False
    with that b have "i < ?ri" by simp
    with R t t1 False r' show ?thesis by simp
  qed
  have "header s' p' = header s p'" if "p' \<noteq> p" for p'
    using h that by (simp add: header_def)
  moreover have "tag s' (p', i) = tag s (p', i)" if "p' \<noteq> p" for p' i
    using t t1 that by simp
  moreover have "\<exists>i < num_page_refs b. refns' ! i = pn"
    using b r' ri len by (intro exI [of _ ?ri]) simp
  moreover have "\<forall>i. ?ri \<le> i \<and> i < num_page_refs b \<longrightarrow> refns' ! i = pn"
  proof (intro allI impI)
    fix i assume "?ri \<le> i \<and> i < num_page_refs b"
    with b have "i = ?ri" by simp
    with r' ri len show "refns' ! i = pn" by simp
  qed
  moreover have "\<forall>i < ?ri. refns' ! i = refns ! i" using r' by simp
  moreover from wf' have "well_formed s' (L(unat pn := L (unat pn) @ [(p, ?ri)])) {}" by simp
  ultimately show ?thesis
    using b R' r' len nr pn by (intro exI [of _ "L(unat pn := L (unat pn) @ [(p, ?ri)])"] exI [of _ b]) simp
qed

lemma WidthForMode_cases: "WidthForMode m = 64 \<or> WidthForMode m = 128 \<or> WidthForMode m = 256"
  by (cases m) (simp_all add: WidthForMode_def TEXTURE_PAGE_WIDTH_def drop_bit_eq_div)

lemma pixel_rect_first_call:
  assumes "unat (pn :: u32) < 256"
  shows "\<exists>cs. LoopPages_calls (PageStartX pn) (PageStartY pn) (WidthForMode m) TEXTURE_PAGE_HEIGHT
           = pn # cs"
proof -
  let ?x = "PageStartX pn" and ?y = "PageStartY pn" and ?w = "WidthForMode m"
  have ux: "unat ?x = (unat pn mod 16) * 64" by (rule unat_PageStartX)
  have uy: "unat ?y = (unat pn div 16) * 256" using assms by (rule unat_PageStartY)
  have xb: "unat ?x \<le> 960"
  proof -
    have "unat pn mod 16 \<le> 15" by simp
    then have "(unat pn mod 16) * 64 \<le> 15 * 64" by (rule mult_le_mono1)
    then show ?thesis by (simp add: ux)
  qed
  have yb: "unat ?y \<le> 3840"
  proof -
    from assms have "unat pn div 16 \<le> 15" by simp
    then have "(unat pn div 16) * 256 \<le> 15 * 256" by (rule mult_le_mono1)
    then show ?thesis by (simp add: uy)
  qed
  from WidthForMode_cases [of m] have w: "unat (?w - 1) \<ge> 63 \<and> unat (?w - 1) \<le> 255"
    by auto
  have sx: "unat (?x div VRAM_PAGE_WIDTH) = unat pn mod 16"
    by (simp add: unat_div VRAM_PAGE_WIDTH_def ux)
  have sy: "unat (?y div VRAM_PAGE_HEIGHT) = unat pn div 16"
    by (simp add: unat_div VRAM_PAGE_HEIGHT_def uy)
  have "unat ?x + unat (?w - 1) < 2 ^ LENGTH(32)" using xb w by simp
  then have xw: "unat (?x + (?w - 1)) = unat ?x + unat (?w - 1)" by (simp only: unat_add_lem)
  have "unat ?y + unat (255 :: u32) < 2 ^ LENGTH(32)"
    using yb by simp
  then have "unat (?y + 255) = unat ?y + unat (255 :: u32)"
    by (simp only: unat_add_lem)
  then have yh: "unat (?y + 255) = unat ?y + 255" by simp
  have ex: "unat ((?x + (?w - 1)) div VRAM_PAGE_WIDTH) = (unat ?x + unat (?w - 1)) div 64"
    by (simp add: unat_div VRAM_PAGE_WIDTH_def xw)
  have ey: "unat ((?y + (TEXTURE_PAGE_HEIGHT - 1)) div VRAM_PAGE_HEIGHT) = (unat ?y + 255) div 256"
    by (simp add: unat_div VRAM_PAGE_HEIGHT_def yh TEXTURE_PAGE_HEIGHT_def)
  have 1: "?x div VRAM_PAGE_WIDTH \<le> (?x + (?w - 1)) div VRAM_PAGE_WIDTH"
  proof -
    have "unat ?x div 64 \<le> (unat ?x + unat (?w - 1)) div 64" by (rule div_le_mono) simp
    then show ?thesis by (simp add: word_le_nat_alt sx ex ux)
  qed
  have 2: "?y div VRAM_PAGE_HEIGHT \<le> (?y + (TEXTURE_PAGE_HEIGHT - 1)) div VRAM_PAGE_HEIGHT"
  proof -
    have "unat ?y div 256 \<le> (unat ?y + 255) div 256" by (rule div_le_mono) simp
    then show ?thesis by (simp add: word_le_nat_alt sy ey uy)
  qed
  have 3: "PageIndex (?x div VRAM_PAGE_WIDTH) (?y div VRAM_PAGE_HEIGHT) = pn"
  proof -
    define sxw where "sxw = ?x div VRAM_PAGE_WIDTH"
    define syw where "syw = ?y div VRAM_PAGE_HEIGHT"
    have W: "VRAM_PAGES_WIDE = 16"
      by (simp add: VRAM_PAGES_WIDE_def VRAM_WIDTH_def VRAM_PAGE_WIDTH_def)
    have usx: "unat sxw = unat pn mod 16" and usy: "unat syw = unat pn div 16"
      by (simp_all only: sxw_def syw_def sx sy)
    have a: "unat syw * unat (16 :: u32) < 2 ^ LENGTH(32)"
      using assms by (simp add: usy)
    then have "unat (syw * 16) = unat syw * unat (16 :: u32)"
      by (simp only: unat_mult_lem)
    then have m: "unat (syw * 16) = (unat pn div 16) * 16" by (simp add: usy)
    have "unat (syw * 16) + unat sxw < 2 ^ LENGTH(32)"
      using assms by (simp add: m usx)
    then have "unat (syw * 16 + sxw) = unat (syw * 16) + unat sxw"
      by (simp only: unat_add_lem)
    then have "unat (syw * 16 + sxw) = unat pn" by (simp add: m usx)
    then have "syw * 16 + sxw = pn" by (simp add: word_unat_eq_iff)
    then show ?thesis by (simp only: PageIndex_def W sxw_def syw_def)
  qed
  from LoopPages_calls_first [OF 1 2] 3 show ?thesis by simp
qed

lemma ref_step_refl: "sources (fst st) p = Some a \<Longrightarrow> ref_step p C st st"
  by (auto simp: ref_step_def)

lemma ref_step_trans:
  assumes "ref_step p C st st'" "ref_step p C' st' st''"
  shows "ref_step p (C \<union> C') st st''"
proof -
  from assms(1) obtain a b where 1: "sources (fst st) p = Some a" "sources (fst st') p = Some b"
    "key b = key a" "texture b = texture a" "num_page_refs a \<le> num_page_refs b"
    "\<forall>i < num_page_refs a. snd st' ! i = snd st ! i"
    "\<forall>i. num_page_refs a \<le> i \<and> i < num_page_refs b \<longrightarrow> snd st' ! i \<in> C"
    unfolding ref_step_def by blast
  from assms(2) 1(2) obtain c where 2: "sources (fst st'') p = Some c"
    "key c = key b" "texture c = texture b" "num_page_refs b \<le> num_page_refs c"
    "\<forall>i < num_page_refs b. snd st'' ! i = snd st' ! i"
    "\<forall>i. num_page_refs b \<le> i \<and> i < num_page_refs c \<longrightarrow> snd st'' ! i \<in> C'"
    unfolding ref_step_def by auto
  have "snd st'' ! i \<in> C \<union> C'" if "num_page_refs a \<le> i \<and> i < num_page_refs c" for i
  proof (cases "i < num_page_refs b")
    case True
    with 1(7) 2(5) that show ?thesis by auto
  next
    case False
    with 2(6) that show ?thesis by auto
  qed
  moreover have "\<forall>i < num_page_refs a. snd st'' ! i = snd st ! i"
    using 1(5,6) 2(5) by auto
  ultimately have "\<exists>a c. sources (fst st) p = Some a \<and> sources (fst st'') p = Some c \<and>
        key c = key a \<and> texture c = texture a \<and> num_page_refs a \<le> num_page_refs c \<and>
        (\<forall>i < num_page_refs a. snd st'' ! i = snd st ! i) \<and>
        (\<forall>i. num_page_refs a \<le> i \<and> i < num_page_refs c \<longrightarrow> snd st'' ! i \<in> C \<union> C')"
    using 1 2 by (intro exI [of _ a] exI [of _ c]) auto
  moreover from assms have "\<forall>p'. p' \<noteq> p \<longrightarrow> header (fst st'') p' = header (fst st) p'"
    "\<forall>p' i. p' \<noteq> p \<longrightarrow> tag (fst st'') (p', i) = tag (fst st) (p', i)"
    "next_source (fst st'') = next_source (fst st)" "recycled (fst st'') = recycled (fst st)"
    unfolding ref_step_def by simp_all
  ultimately show ?thesis unfolding ref_step_def by blast
qed

lemma has_ref_step:
  assumes "has_ref p pn i st" "ref_step p C st st'"
  shows "has_ref p pn i st'"
  using assms unfolding has_ref_def ref_step_def by fastforce

lemma add_page_ref_built:
  assumes b: "built p st" and run: "add_page_ref p pn st = Inr st'"
  shows "built p st' \<and> ref_step p {pn} st st' \<and> (\<exists>i. has_ref p pn i st') \<and> pn < NUM_PAGES \<and>
         (\<forall>a. sources (fst st) p = Some a \<and> num_page_refs a = 0 \<longrightarrow> has_ref p pn 0 st')"
proof -
  obtain s refns where st: "st = (s, refns)" by (cases st)
  obtain s' refns' where st': "st' = (s', refns')" by (cases st')
  from b st obtain L a where wf: "well_formed s L {}" and src: "sources s p = Some a"
    and len: "length refns = MAX_PAGE_REFS_PER_SOURCE"
    and R: "\<forall>i < num_page_refs a. tag s (p, i) = Some (Some p, Some (unat (refns ! i)))"
    unfolding built_def by auto
  from add_page_ref_step [OF wf src len R run [unfolded st st']] obtain L' b where
    *: "well_formed s' L' {}" "sources s' p = Some b" "key b = key a" "texture b = texture a"
       "length refns' = MAX_PAGE_REFS_PER_SOURCE"
       "\<forall>i < num_page_refs b. tag s' (p, i) = Some (Some p, Some (unat (refns' ! i)))"
       "num_page_refs a \<le> num_page_refs b"
       "\<forall>i < num_page_refs a. refns' ! i = refns ! i"
       "\<forall>i. num_page_refs a \<le> i \<and> i < num_page_refs b \<longrightarrow> refns' ! i = pn"
       "\<exists>i < num_page_refs b. refns' ! i = pn"
       "\<forall>p'. p' \<noteq> p \<longrightarrow> header s' p' = header s p'"
       "\<forall>p' i. p' \<noteq> p \<longrightarrow> tag s' (p', i) = tag s (p', i)"
       "next_source s' = next_source s" "recycled s' = recycled s" "pn < NUM_PAGES"
    by blast
  have 1: "built p st'" unfolding built_def st' using *(1,2,5,6) by auto
  have 2: "ref_step p {pn} st st'"
    unfolding ref_step_def st st' using src * by auto
  have 3: "\<exists>i. has_ref p pn i st'" unfolding has_ref_def st' using *(2,10) by auto
  have 4: "has_ref p pn 0 st'" if "num_page_refs a = 0"
  proof -
    from *(10) obtain i where i: "i < num_page_refs b" "refns' ! i = pn" by blast
    then have "0 < num_page_refs b" by simp
    moreover from that *(9) this have "refns' ! 0 = pn" by simp
    ultimately show ?thesis unfolding has_ref_def st' using *(2) by simp
  qed
  from 1 2 3 4 src st *(15) show ?thesis by auto
qed

lemma fold_add_page_ref:
  assumes "foldO (\<lambda>pn st. Some (add_page_ref p pn st)) cs st = Some (Inr st')" and "built p st"
  shows "built p st' \<and> ref_step p (set cs) st st' \<and> (\<forall>c \<in> set cs. (\<exists>i. has_ref p c i st')) \<and>
         (\<forall>c \<in> set cs. c < NUM_PAGES)"
  using assms
proof (induction cs arbitrary: st)
  case Nil
  then have "st' = st" by simp
  moreover from Nil obtain a where "sources (fst st) p = Some a" unfolding built_def by blast
  ultimately show ?case using Nil ref_step_refl by auto
next
  case (Cons c cs)
  from Cons.prems(1) obtain st1 where s1: "add_page_ref p c st = Inr st1"
    and r: "foldO (\<lambda>pn st. Some (add_page_ref p pn st)) cs st1 = Some (Inr st')"
    by (auto simp: bindO_Inr_iff)
  from add_page_ref_built [OF Cons.prems(2) s1] have b1: "built p st1"
    and rs1: "ref_step p {c} st st1" and h1: "\<exists>i. has_ref p c i st1" and c: "c < NUM_PAGES"
    by auto
  from Cons.IH [OF r b1] have b': "built p st'" and rs: "ref_step p (set cs) st1 st'"
    and h: "\<forall>c \<in> set cs. (\<exists>i. has_ref p c i st')" and cs: "\<forall>c \<in> set cs. c < NUM_PAGES"
    by auto
  from ref_step_trans [OF rs1 rs] have "ref_step p (set (c # cs)) st st'" by simp
  moreover from h1 rs have "\<exists>i. has_ref p c i st'" by (auto intro: has_ref_step)
  ultimately show ?case using b' h c cs by auto
qed

subsection \<open>CreateSource\<close>

lemma well_formed_fresh:
  assumes "well_formed s L U"
  shows "sources s (next_source s) = None"
proof (cases "sources s (next_source s)")
  case None
  then show ?thesis .
next
  case (Some a)
  with assms have "next_source s < next_source s" unfolding well_formed_def by blast
  then show ?thesis by simp
qed

lemma well_formed_new_source:
  assumes wf: "well_formed s L {}"
  shows "well_formed (s\<lparr>sources := (sources s)(next_source s \<mapsto>
                 \<lparr>key = k, num_page_refs = 0, texture = t, page_refs = (\<lambda>_. null_node)\<rparr>),
               next_source := Suc (next_source s)\<rparr>) L {}"
proof -
  let ?r = "next_source s"
  let ?s = "s\<lparr>sources := (sources s)(?r \<mapsto>
                 \<lparr>key = k, num_page_refs = 0, texture = t, page_refs = (\<lambda>_. null_node)\<rparr>),
               next_source := Suc ?r\<rparr>"
  note fresh = well_formed_fresh [OF wf]
  have other: "sources ?s p = sources s p" if "p \<noteq> ?r" for p
    using that by simp
  have w1: "list_is ?s q (L q) \<and> distinct (map fst (L q)) \<and>
            (\<forall>y \<in> set (L q). linked ?s q y \<and> y \<notin> {})"
    if q: "q < unat NUM_PAGES" for q
  proof -
    from wf q have l: "list_is s q (L q)" and d: "distinct (map fst (L q))"
      and ly: "\<forall>y \<in> set (L q). linked s q y" unfolding well_formed_def by blast+
    have ne: "fst y \<noteq> ?r" if "y \<in> set (L q)" for y
    proof
      assume "fst y = ?r"
      moreover from ly that have "linked s q y" by blast
      ultimately show False using fresh by (simp add: linked_def)
    qed
    have g: "\<forall>y \<in> set (L q). get_node ?s y = get_node s y"
    proof
      fix y assume "y \<in> set (L q)"
      from other [OF ne [OF this]] show "get_node ?s y = get_node s y"
        by (rule get_node_other_source)
    qed
    from seg_frame [OF g] l have "list_is ?s q (L q)"
      by (simp add: list_is_def)
    moreover have "linked ?s q y" if y: "y \<in> set (L q)" for y
    proof -
      from linked_other_source [OF other [OF ne [OF y]]] ly y show ?thesis by blast
    qed
    ultimately show ?thesis using d by blast
  qed
  have w2: "num_page_refs b \<le> MAX_PAGE_REFS_PER_SOURCE \<and> p' < next_source ?s \<and>
        (\<forall>i < num_page_refs b. (p', i) \<in> {} \<or>
            (\<exists>q < unat NUM_PAGES. (p', i) \<in> set (L q)))"
    if b: "sources ?s p' = Some b" for p' b
  proof (cases "p' = ?r")
    case True
    with b have "num_page_refs b = 0" by auto
    with True show ?thesis by simp
  next
    case False
    with b have "sources s p' = Some b" by simp
    with wf have "num_page_refs b \<le> MAX_PAGE_REFS_PER_SOURCE" "p' < next_source s"
      "\<forall>i < num_page_refs b. (\<exists>q < unat NUM_PAGES. (p', i) \<in> set (L q))"
      unfolding well_formed_def by blast+
    then show ?thesis by simp
  qed
  from w1 w2 show ?thesis unfolding well_formed_def by blast
qed

lemma LoopPages_Inr:
  "LoopPages gt x y w h f s = Some (Inr s') \<Longrightarrow>
   foldO f (LoopPages_calls x y w h) s = Some (Inr s')"
  by (simp add: LoopPages_fold split: if_splits)

lemma CreateSource_None [simp]: "CreateSource gt g None k s = Some (Inr (None, s))"
  by (simp add: CreateSource_def)

lemma CreateSource_folds:
  assumes run: "CreateSource gt g (Some tex) k s = Some (Inr (r, s'))"
  shows "\<exists>texels st'.
           DecodeTexture gt g (page k) (palette k) (mode k) = Inr texels \<and>
           foldO (\<lambda>pn st. Some (add_page_ref (next_source s) pn st)) (page_calls gt k)
             (s\<lparr>sources := (sources s)(next_source s \<mapsto>
                   \<lparr>key = k, num_page_refs = 0, texture = tex\<lparr>pixels := texels\<rparr>,
                    page_refs = (\<lambda>_. null_node)\<rparr>),
                 next_source := Suc (next_source s)\<rparr>,
              replicate MAX_PAGE_REFS_PER_SOURCE 0) = Some (Inr st') \<and>
           r = Some (next_source s) \<and> s' = fst st'"
proof -
  from run obtain texels where
    d: "DecodeTexture gt g (page k) (palette k) (mode k) = Inr texels"
    by (auto simp: CreateSource_def split: sum.splits)
  let ?f = "\<lambda>pn st. Some (add_page_ref (next_source s) pn st)"
  let ?s0 = "s\<lparr>sources := (sources s)(next_source s \<mapsto>
                   \<lparr>key = k, num_page_refs = 0, texture = tex\<lparr>pixels := texels\<rparr>,
                    page_refs = (\<lambda>_. null_node)\<rparr>),
                 next_source := Suc (next_source s)\<rparr>"
  from run d obtain st1 st2 where
    1: "LoopPages gt (PageStartX (ucast (page k))) (PageStartY (ucast (page k)))
          (WidthForMode (mode k)) TEXTURE_PAGE_HEIGHT ?f
          (?s0, replicate MAX_PAGE_REFS_PER_SOURCE 0) = Some (Inr st1)"
    and 2: "(if mode_u8 (mode k) < mode_u8 Direct16Bit
             then LoopPages gt (GetXBase gt (palette k)) (GetYBase gt (palette k))
                    (GetWidth gt (mode k)) 1 ?f st1
             else Some (Inr st1)) = Some (Inr st2)"
    and 3: "r = Some (next_source s)" "s' = fst st2"
    by (auto simp: CreateSource_def Let_def bindO_Inr_iff)
  note f1 = LoopPages_Inr [OF 1]
  have "foldO ?f (page_calls gt k) (?s0, replicate MAX_PAGE_REFS_PER_SOURCE 0) = Some (Inr st2)"
  proof (cases "mode_u8 (mode k) < mode_u8 Direct16Bit")
    case True
    with 2 have "LoopPages gt (GetXBase gt (palette k)) (GetYBase gt (palette k))
                    (GetWidth gt (mode k)) 1 ?f st1 = Some (Inr st2)" by simp
    from LoopPages_Inr [OF this] f1 True show ?thesis
      by (simp add: page_calls_def foldO_append)
  next
    case False
    with 2 have "st2 = st1" by simp
    with f1 False show ?thesis by (simp add: page_calls_def)
  qed
  with d 3 show ?thesis by blast
qed

lemma page_calls_first:
  "\<exists>cs. page_calls gt k = ucast (page k) # cs"
proof -
  have "unat (ucast (page k) :: u32) < 256"
    using unsigned_less [of "page k"] by (simp add: unat_ucast_u8_u32)
  from pixel_rect_first_call [OF this, of "mode k"] show ?thesis
    by (auto simp: page_calls_def)
qed

lemma CreateSource_wf:
  assumes wf: "well_formed s L {}"
    and run: "CreateSource gt g (Some tex) k s = Some (Inr (r, s'))"
  shows "r = Some (next_source s) \<and>
         (\<exists>L' b texels.
            well_formed s' L' {} \<and>
            DecodeTexture gt g (page k) (palette k) (mode k) = Inr texels \<and>
            sources s' (next_source s) = Some b \<and> key b = k \<and>
            texture b = tex\<lparr>pixels := texels\<rparr> \<and> 0 < num_page_refs b \<and>
            tag s' (next_source s, 0) = Some (Some (next_source s), Some (unat (page k))) \<and>
            unat (page k) < unat NUM_PAGES \<and>
            (\<forall>i < num_page_refs b. \<exists>c \<in> set (page_calls gt k).
               tag s' (next_source s, i) = Some (Some (next_source s), Some (unat c))) \<and>
            (\<forall>c \<in> set (page_calls gt k). \<exists>i < num_page_refs b.
               tag s' (next_source s, i) = Some (Some (next_source s), Some (unat c))) \<and>
            (\<forall>p'. p' \<noteq> next_source s \<longrightarrow> header s' p' = header s p') \<and>
            (\<forall>p' i. p' \<noteq> next_source s \<longrightarrow> tag s' (p', i) = tag s (p', i)) \<and>
            next_source s' = Suc (next_source s) \<and> recycled s' = recycled s)"
proof -
  let ?r = "next_source s"
  let ?f = "\<lambda>pn st. Some (add_page_ref ?r pn st)"
  from CreateSource_folds [OF run] obtain texels st' where
    d: "DecodeTexture gt g (page k) (palette k) (mode k) = Inr texels"
    and f: "foldO ?f (page_calls gt k)
             (s\<lparr>sources := (sources s)(?r \<mapsto>
                   \<lparr>key = k, num_page_refs = 0, texture = tex\<lparr>pixels := texels\<rparr>,
                    page_refs = (\<lambda>_. null_node)\<rparr>),
                 next_source := Suc ?r\<rparr>,
              replicate MAX_PAGE_REFS_PER_SOURCE 0) = Some (Inr st')"
    and r: "r = Some ?r" and s': "s' = fst st'"
    by blast
  define a0 where "a0 = \<lparr>key = k, num_page_refs = 0, texture = tex\<lparr>pixels := texels\<rparr>,
                    page_refs = (\<lambda>_. null_node)\<rparr>"
  define s0 where "s0 = s\<lparr>sources := (sources s)(?r \<mapsto> a0), next_source := Suc ?r\<rparr>"
  define st0 where "st0 = (s0, replicate MAX_PAGE_REFS_PER_SOURCE (0 :: u32))"
  from f have f0: "foldO ?f (page_calls gt k) st0 = Some (Inr st')"
    by (simp add: st0_def s0_def a0_def)
  have wf0: "well_formed s0 L {}" unfolding s0_def a0_def by (rule well_formed_new_source [OF wf])
  have src0: "sources s0 ?r = Some a0" by (simp add: s0_def)
  have n0: "num_page_refs a0 = 0" by (simp add: a0_def)
  have b0: "built ?r st0"
    unfolding built_def st0_def using wf0 src0 n0 by auto
  obtain cs where pc: "page_calls gt k = ucast (page k) # cs"
    using page_calls_first by blast
  from f0 pc obtain st1 where a1: "add_page_ref ?r (ucast (page k)) st0 = Inr st1"
    and f1: "foldO ?f cs st1 = Some (Inr st')"
    by (auto simp: bindO_Inr_iff)
  from add_page_ref_built [OF b0 a1] src0 n0 have "has_ref ?r (ucast (page k)) 0 st1"
    by (simp add: st0_def)
  moreover from fold_add_page_ref [OF f1] add_page_ref_built [OF b0 a1]
  have "ref_step ?r (set cs) st1 st'" by blast
  ultimately have h0: "has_ref ?r (ucast (page k)) 0 st'" by (rule has_ref_step)
  from fold_add_page_ref [OF f0 b0] have b': "built ?r st'"
    and rs: "ref_step ?r (set (page_calls gt k)) st0 st'"
    and hr: "\<forall>c \<in> set (page_calls gt k). \<exists>i. has_ref ?r c i st'"
    and lt: "\<forall>c \<in> set (page_calls gt k). c < NUM_PAGES"
    by blast+
  from b' s' obtain L' b where wf': "well_formed s' L' {}" and sb: "sources s' ?r = Some b"
    and tg: "\<forall>i < num_page_refs b. tag s' (?r, i) = Some (Some ?r, Some (unat (snd st' ! i)))"
    unfolding built_def by blast
  from rs src0 sb s' have kb: "key b = key a0" and tb: "texture b = texture a0"
    and new: "\<forall>i. num_page_refs a0 \<le> i \<and> i < num_page_refs b \<longrightarrow>
                snd st' ! i \<in> set (page_calls gt k)"
    and oh: "\<forall>p'. p' \<noteq> ?r \<longrightarrow> header s' p' = header s0 p'"
    and ot: "\<forall>p' i. p' \<noteq> ?r \<longrightarrow> tag s' (p', i) = tag s0 (p', i)"
    and ns: "next_source s' = next_source s0" and rc: "recycled s' = recycled s0"
    unfolding ref_step_def st0_def by auto
  from h0 sb s' have p0: "0 < num_page_refs b" and r0: "snd st' ! 0 = ucast (page k)"
    unfolding has_ref_def by auto
  have t0: "tag s' (?r, 0) = Some (Some ?r, Some (unat (page k)))"
    using tg p0 r0 by (simp add: unat_ucast_u8_u32)
  have "ucast (page k) \<in> set (page_calls gt k)" by (simp add: pc)
  with lt have "(ucast (page k) :: u32) < NUM_PAGES" by blast
  then have pk: "unat (page k) < unat NUM_PAGES"
    by (simp add: word_less_nat_alt unat_ucast_u8_u32)
  have reg: "\<forall>i < num_page_refs b. \<exists>c \<in> set (page_calls gt k).
               tag s' (?r, i) = Some (Some ?r, Some (unat c))"
    using tg new n0 by auto
  have cov: "\<forall>c \<in> set (page_calls gt k). \<exists>i < num_page_refs b.
               tag s' (?r, i) = Some (Some ?r, Some (unat c))"
  proof
    fix c assume "c \<in> set (page_calls gt k)"
    with hr obtain i where "has_ref ?r c i st'" by blast
    with sb s' have "i < num_page_refs b" "snd st' ! i = c" unfolding has_ref_def by auto
    with tg show "\<exists>i < num_page_refs b. tag s' (?r, i) = Some (Some ?r, Some (unat c))"
      by auto
  qed
  have oh': "\<forall>p'. p' \<noteq> ?r \<longrightarrow> header s' p' = header s p'"
    using oh by (simp add: header_def s0_def)
  have ot': "\<forall>p' i. p' \<noteq> ?r \<longrightarrow> tag s' (p', i) = tag s (p', i)"
    using ot by (simp add: tag_def s0_def)
  from ns rc have ns': "next_source s' = Suc ?r" and rc': "recycled s' = recycled s"
    by (simp_all add: s0_def)
  from kb tb have kb': "key b = k" and tb': "texture b = tex\<lparr>pixels := texels\<rparr>"
    by (simp_all add: a0_def)
  from r wf' d sb kb' tb' p0 t0 pk reg cov oh' ot' ns' rc' show ?thesis by blast
qed

lemma add_page_ref_present:
  assumes b: "built p st" and h: "has_ref p pn i st"
  shows "add_page_ref p pn st = Inr st"
proof -
  obtain s refns where st: "st = (s, refns)" by (cases st)
  from b st obtain L a where wf: "well_formed s L {}" and src: "sources s p = Some a"
    and len: "length refns = MAX_PAGE_REFS_PER_SOURCE"
    unfolding built_def by auto
  from wf src have le: "num_page_refs a \<le> MAX_PAGE_REFS_PER_SOURCE" unfolding well_formed_def by blast
  from h st src have i: "i < num_page_refs a" "refns ! i = pn" unfolding has_ref_def by auto
  with le len have "pn \<in> set (take (num_page_refs a) refns)"
    by (auto simp: in_set_conv_nth)
  with src show ?thesis by (simp add: add_page_ref_def get_source_def st)
qed

lemma foldO_replicate_present:
  assumes "built p st" "has_ref p pn i st"
  shows "foldO (\<lambda>pn st. Some (add_page_ref p pn st)) (replicate n pn) st = Some (Inr st)"
  using add_page_ref_present [OF assms] by (induction n) simp_all

lemma add_page_ref_total:
  assumes b: "built p st" and src: "sources (fst st) p = Some a"
    and pn: "pn < NUM_PAGES" and room: "num_page_refs a < MAX_PAGE_REFS_PER_SOURCE"
  shows "\<exists>st' b. add_page_ref p pn st = Inr st' \<and> sources (fst st') p = Some b \<and>
           num_page_refs b \<le> num_page_refs a + 1"
proof -
  obtain s refns where st: "st = (s, refns)" by (cases st)
  from b st src obtain L where wf: "well_formed s L {}"
    and len: "length refns = MAX_PAGE_REFS_PER_SOURCE"
    and R: "\<forall>i < num_page_refs a. tag s (p, i) = Some (Some p, Some (unat (refns ! i)))"
    unfolding built_def by auto
  from src st have src': "sources s p = Some a" by simp
  show ?thesis
  proof (cases "pn \<in> set (take (num_page_refs a) refns)")
    case True
    with src' have "add_page_ref p pn st = Inr st"
      by (simp add: add_page_ref_def get_source_def st)
    with src show ?thesis by auto
  next
    case False
    let ?ri = "num_page_refs a"
    let ?s1 = "s\<lparr>sources := (sources s)(p \<mapsto> a\<lparr>num_page_refs := ?ri + 1\<rparr>)\<rparr>"
    from pn have n: "unat pn < unat NUM_PAGES" by (simp add: word_less_nat_alt)
    have wf1: "well_formed ?s1 L {(p, ?ri)}" by (rule well_formed_num_only [OF wf src' room])
    have np: "fst (p, ?ri) \<notin> fst ` set (L (unat pn))"
    proof
      assume "fst (p, ?ri) \<in> fst ` set (L (unat pn))"
      then obtain i where i: "(p, i) \<in> set (L (unat pn))" by force
      with wf n have l: "linked s (unat pn) (p, i)" unfolding well_formed_def by blast
      with src' have "i < ?ri" and "tag s (p, i) = Some (Some p, Some (unat pn))"
        by (auto simp: linked_def tag_def)
      with R have "unat (refns ! i) = unat pn" by auto
      then have "refns ! i = pn" by (simp add: word_unat_eq_iff)
      with \<open>i < ?ri\<close> room len have "pn \<in> set (take ?ri refns)"
        by (auto simp: in_set_conv_nth)
      with False show False by blast
    qed
    have live1: "sources ?s1 (fst (p, ?ri)) = Some (a\<lparr>num_page_refs := ?ri + 1\<rparr>)"
      "snd (p, ?ri) < num_page_refs (a\<lparr>num_page_refs := ?ri + 1\<rparr>)"
      by simp_all
    from ListAppend_wf [OF wf1 n _ live1 np] obtain s' where
      A: "ListAppend (unat pn) p (p, ?ri) ?s1 = Inr s'" and h: "header s' = header ?s1"
      by auto
    from h have "header s' p = Some (key a, ?ri + 1, texture a)"
      by (simp add: header_def)
    then obtain b where b: "sources s' p = Some b" "num_page_refs b = ?ri + 1"
      by (auto simp: header_Some_iff)
    from False src' room pn A have "add_page_ref p pn st = Inr (s', refns[?ri := pn])"
      by (simp add: add_page_ref_def get_source_def st Let_def)
    with b show ?thesis by auto
  qed
qed

lemma foldO_replicate_add:
  assumes b: "built p st" and src: "sources (fst st) p = Some a"
    and pn: "pn < NUM_PAGES" and room: "num_page_refs a < MAX_PAGE_REFS_PER_SOURCE"
  shows "\<exists>st' b. foldO (\<lambda>pn st. Some (add_page_ref p pn st)) (replicate n pn) st = Some (Inr st') \<and>
           built p st' \<and> sources (fst st') p = Some b \<and>
           num_page_refs b \<le> num_page_refs a + 1"
proof (cases n)
  case 0
  with b src show ?thesis by auto
next
  case (Suc m)
  from add_page_ref_total [OF b src pn room] obtain st1 c where
    1: "add_page_ref p pn st = Inr st1" "sources (fst st1) p = Some c"
       "num_page_refs c \<le> num_page_refs a + 1"
    by blast
  from add_page_ref_built [OF b 1(1)] obtain i where b1: "built p st1" and h: "has_ref p pn i st1"
    by blast
  from foldO_replicate_present [OF b1 h, of m] 1 Suc b1 show ?thesis
    by auto
qed

lemma LoopPages_calls_one_row:
  assumes "y div VRAM_PAGE_HEIGHT = (y + (height - 1)) div VRAM_PAGE_HEIGHT"
  shows "\<exists>n. LoopPages_calls x y width height =
           replicate n (PageIndex (x div VRAM_PAGE_WIDTH) (y div VRAM_PAGE_HEIGHT))"
  using assms [symmetric] by (simp add: LoopPages_calls_def Let_def)

lemma palette_rect_one_row:
  "\<exists>n. LoopPages_calls x y width 1 =
         replicate n (PageIndex (x div VRAM_PAGE_WIDTH) (y div VRAM_PAGE_HEIGHT))"
  by (rule LoopPages_calls_one_row) simp

lemma pixel_rect_one_row:
  assumes "unat (pn :: u32) < 256"
  shows "PageStartY pn div VRAM_PAGE_HEIGHT =
         (PageStartY pn + (TEXTURE_PAGE_HEIGHT - 1)) div VRAM_PAGE_HEIGHT"
proof -
  let ?y = "PageStartY pn"
  have uy: "unat ?y = (unat pn div 16) * 256" using assms by (rule unat_PageStartY)
  have yb: "unat ?y \<le> 3840"
  proof -
    from assms have "unat pn div 16 \<le> 15" by simp
    then have "(unat pn div 16) * 256 \<le> 15 * 256" by (rule mult_le_mono1)
    then show ?thesis by (simp add: uy)
  qed
  have sy: "unat (?y div VRAM_PAGE_HEIGHT) = unat pn div 16"
    by (simp add: unat_div VRAM_PAGE_HEIGHT_def uy)
  have "unat ?y + unat (255 :: u32) < 2 ^ LENGTH(32)"
    using yb by simp
  then have "unat (?y + 255) = unat ?y + unat (255 :: u32)"
    by (simp only: unat_add_lem)
  then have yh: "unat (?y + 255) = unat ?y + 255" by simp
  have ey: "unat ((?y + (TEXTURE_PAGE_HEIGHT - 1)) div VRAM_PAGE_HEIGHT) = (unat ?y + 255) div 256"
    by (simp add: unat_div VRAM_PAGE_HEIGHT_def yh TEXTURE_PAGE_HEIGHT_def)
  have "((unat pn div 16) * 256 + 255) div 256 = unat pn div 16" by simp
  with sy ey uy show ?thesis by (simp add: word_unat_eq_iff)
qed

lemma pixel_rect_calls:
  assumes "unat (pn :: u32) < 256"
  shows "\<exists>n. LoopPages_calls (PageStartX pn) (PageStartY pn) (WidthForMode m) TEXTURE_PAGE_HEIGHT
           = replicate (Suc n) pn"
proof -
  from LoopPages_calls_one_row [OF pixel_rect_one_row [OF assms]] obtain n where
    1: "LoopPages_calls (PageStartX pn) (PageStartY pn) (WidthForMode m) TEXTURE_PAGE_HEIGHT =
          replicate n (PageIndex (PageStartX pn div VRAM_PAGE_WIDTH)
                         (PageStartY pn div VRAM_PAGE_HEIGHT))"
    by blast
  from pixel_rect_first_call [OF assms, of m] obtain cs where
    2: "LoopPages_calls (PageStartX pn) (PageStartY pn) (WidthForMode m) TEXTURE_PAGE_HEIGHT
           = pn # cs" by blast
  from 1 2 obtain n' where "n = Suc n'" by (cases n) auto
  with 1 2 show ?thesis by auto
qed

lemma CreateSource_total:
  assumes wf: "well_formed s L {}"
    and d: "DecodeTexture gt g (page k) (palette k) (mode k) = Inr texels"
    and lt: "\<forall>c \<in> set (page_calls gt k). c < NUM_PAGES"
    and nd: "\<not> debug_build gt"
  shows "\<exists>s'. CreateSource gt g (Some tex) k s = Some (Inr (Some (next_source s), s'))"
proof -
  let ?r = "next_source s"
  let ?f = "\<lambda>pn st. Some (add_page_ref ?r pn st)"
  define a0 where "a0 = \<lparr>key = k, num_page_refs = 0, texture = tex\<lparr>pixels := texels\<rparr>,
                    page_refs = (\<lambda>_. null_node)\<rparr>"
  define s0 where "s0 = s\<lparr>sources := (sources s)(?r \<mapsto> a0), next_source := Suc ?r\<rparr>"
  define st0 where "st0 = (s0, replicate MAX_PAGE_REFS_PER_SOURCE (0 :: u32))"
  define pn where "pn = (ucast (page k) :: u32)"
  have wf0: "well_formed s0 L {}" unfolding s0_def a0_def by (rule well_formed_new_source [OF wf])
  have src0: "sources (fst st0) ?r = Some a0" by (simp add: s0_def st0_def)
  have n0: "num_page_refs a0 = 0" by (simp add: a0_def)
  have b0: "built ?r st0"
    unfolding built_def using wf0 src0 n0 by (auto simp: st0_def)
  have u: "unat pn < 256"
    using unsigned_less [of "page k"] by (simp add: unat_ucast_u8_u32 pn_def)
  from pixel_rect_calls [OF u, of "mode k"] obtain n1 where
    c1: "LoopPages_calls (PageStartX pn) (PageStartY pn) (WidthForMode (mode k)) TEXTURE_PAGE_HEIGHT
           = replicate (Suc n1) pn" by blast
  from c1 have "pn \<in> set (page_calls gt k)" by (simp add: page_calls_def pn_def)
  with lt have pnlt: "pn < NUM_PAGES" by blast
  have room0: "num_page_refs a0 < MAX_PAGE_REFS_PER_SOURCE"
    by (simp add: n0 MAX_PAGE_REFS_PER_SOURCE_def)
  from foldO_replicate_add [OF b0 src0 pnlt room0, of "Suc n1"] obtain st1 b1 where
    f1: "foldO ?f (replicate (Suc n1) pn) st0 = Some (Inr st1)" and b1: "built ?r st1"
    and src1: "sources (fst st1) ?r = Some b1" and n1: "num_page_refs b1 \<le> 1"
    using n0 by auto
  have l1: "LoopPages gt (PageStartX pn) (PageStartY pn) (WidthForMode (mode k))
              TEXTURE_PAGE_HEIGHT ?f st0 = Some (Inr st1)"
    using nd f1 c1 by (simp add: LoopPages_fold)
  have l2: "\<exists>st2. (if mode_u8 (mode k) < mode_u8 Direct16Bit
             then LoopPages gt (GetXBase gt (palette k)) (GetYBase gt (palette k))
                    (GetWidth gt (mode k)) 1 ?f st1
             else Some (Inr st1)) = Some (Inr st2)"
  proof (cases "mode_u8 (mode k) < mode_u8 Direct16Bit")
    case False
    then show ?thesis by simp
  next
    case True
    from palette_rect_one_row [of "GetXBase gt (palette k)" "GetYBase gt (palette k)"
        "GetWidth gt (mode k)"] obtain n2 c2 where
      c2: "LoopPages_calls (GetXBase gt (palette k)) (GetYBase gt (palette k))
             (GetWidth gt (mode k)) 1 = replicate n2 c2" by blast
    have "\<exists>st2. foldO ?f (replicate n2 c2) st1 = Some (Inr st2)"
    proof (cases n2)
      case 0
      then show ?thesis by simp
    next
      case (Suc m)
      with c2 True have "c2 \<in> set (page_calls gt k)" by (simp add: page_calls_def)
      with lt have c2lt: "c2 < NUM_PAGES" by blast
      from n1 have room1: "num_page_refs b1 < MAX_PAGE_REFS_PER_SOURCE"
        by (simp add: MAX_PAGE_REFS_PER_SOURCE_def)
      from foldO_replicate_add [OF b1 src1 c2lt room1, of n2] show ?thesis by blast
    qed
    with True nd c2 show ?thesis by (simp add: LoopPages_fold)
  qed
  then obtain st2 where l2': "(if mode_u8 (mode k) < mode_u8 Direct16Bit
             then LoopPages gt (GetXBase gt (palette k)) (GetYBase gt (palette k))
                    (GetWidth gt (mode k)) 1 ?f st1
             else Some (Inr st1)) = Some (Inr st2)" by blast
  have "CreateSource gt g (Some tex) k s = Some (Inr (Some ?r, fst st2))"
    unfolding CreateSource_def
    using d l1 [unfolded st0_def s0_def a0_def pn_def] l2'
    by (simp add: Let_def)
  then show ?thesis by blast
qed

subsection \<open>The invariant of the reachable states\<close>

lemma source_ok_transfer:
  assumes "source_ok gt s p" "header s' p = header s p" "\<forall>i. tag s' (p, i) = tag s (p, i)"
  shows "source_ok gt s' p"
  using assms unfolding source_ok_def by simp

lemma source_ok_dead: "sources s p = None \<Longrightarrow> source_ok gt s p"
  by (simp add: source_ok_def header_def)

lemma well_formed_registered:
  assumes wf: "well_formed s L {}" and src: "sources s p = Some a" and i: "i < num_page_refs a"
    and t: "tag s (p, i) = Some (r, Some pn)"
  shows "pn < unat NUM_PAGES \<and> (p, i) \<in> set (L pn)"
proof -
  from wf src i obtain q where q: "q < unat NUM_PAGES" "(p, i) \<in> set (L q)"
    unfolding well_formed_def by blast
  with wf have "linked s q (p, i)" unfolding well_formed_def by blast
  with t have "q = pn" by (simp add: linked_iff)
  with q show ?thesis by simp
qed

lemma well_formed_list_linked:
  assumes "well_formed s L U" "pn < unat NUM_PAGES" "x \<in> set (L pn)"
  shows "linked s pn x"
  using assms unfolding well_formed_def by blast

lemma well_formed_list_owners:
  assumes wf: "well_formed s L {}" and pn: "pn < unat NUM_PAGES"
  shows "fst ` set (L pn) = {p. \<exists>i. linked s pn (p, i)}"
proof (intro set_eqI iffI)
  fix p assume "p \<in> fst ` set (L pn)"
  then obtain i where "(p, i) \<in> set (L pn)" by force
  from well_formed_list_linked [OF wf pn this] show "p \<in> {p. \<exists>i. linked s pn (p, i)}" by blast
next
  fix p assume "p \<in> {p. \<exists>i. linked s pn (p, i)}"
  then obtain i where l: "linked s pn (p, i)" by blast
  then obtain a where a: "sources s p = Some a" "i < num_page_refs a"
    "tag s (p, i) = Some (Some p, Some pn)"
    by (auto simp: linked_def tag_def)
  from well_formed_registered [OF wf a] show "p \<in> fst ` set (L pn)" by force
qed

lemma LookupSource_cases:
  assumes inv: "cache_inv gt s" and pk: "unat (page k) < unat NUM_PAGES"
  shows "(\<exists>p a. sources s p = Some a \<and> key a = k \<and>
            LookupSource gt g f k s = Some (Inr (Some p, s))) \<or>
         ((\<forall>p a. sources s p = Some a \<longrightarrow> key a \<noteq> k) \<and>
            LookupSource gt g f k s = CreateSource gt g f k s)"
proof -
  from inv obtain L where wf: "well_formed s L {}" and ok: "\<forall>p. source_ok gt s p"
    unfolding cache_inv_def by blast
  let ?pn = "unat (page k)"
  let ?xs = "L ?pn"
  let ?P = "\<lambda>x. key (the (sources s (fst x))) = k"
  from wf pk have "list_is s ?pn ?xs" unfolding well_formed_def by blast
  then have sg: "seg s None (head (m_page_sources s ?pn)) ?xs None"
    by (simp add: list_is_def)
  have nodes: "\<forall>x \<in> set ?xs. \<exists>nd src. get_node s x = Inr nd \<and> node_ref nd = Some (fst x) \<and>
           sources s (fst x) = Some src"
  proof
    fix x assume x: "x \<in> set ?xs"
    from well_formed_linked_node [OF wf pk x] obtain nd where
      "get_node s x = Inr nd" "node_ref nd = Some (fst x)" by blast
    moreover from well_formed_list_linked [OF wf pk x] obtain src where "sources s (fst x) = Some src"
      by (auto simp: linked_def)
    ultimately show "\<exists>nd src. get_node s x = Inr nd \<and> node_ref nd = Some (fst x) \<and>
           sources s (fst x) = Some src" by blast
  qed
  note loop = LookupSource_loop_seg [OF sg nodes, of k]
  have gl: "get_list s ?pn = Inr (m_page_sources s ?pn)"
    using pk by (simp add: get_list_def)
  show ?thesis
  proof (cases "find ?P ?xs")
    case None
    then have no: "\<forall>x \<in> set ?xs. \<not> ?P x" by (auto simp: find_None_iff)
    have "key a \<noteq> k" if a: "sources s p = Some a" for p a
    proof
      assume ka: "key a = k"
      from ok have "source_ok gt s p" by blast
      with a ka have "0 < num_page_refs a"
        and "tag s (p, 0) = Some (Some p, Some ?pn)"
        unfolding source_ok_def by (auto simp: header_def)
      from well_formed_registered [OF wf a this] have "(p, 0) \<in> set ?xs" by simp
      with no a ka show False by auto
    qed
    moreover from None loop gl have "LookupSource gt g f k s = CreateSource gt g f k s"
      by (simp add: LookupSource_def)
    ultimately show ?thesis by blast
  next
    case (Some x)
    then have x: "x \<in> set ?xs" "?P x" by (auto simp: find_Some_iff)
    from nodes x(1) obtain src where src: "sources s (fst x) = Some src" by blast
    with x(2) have "key src = k" by simp
    moreover from Some loop gl have "LookupSource gt g f k s = Some (Inr (Some (fst x), s))"
      by (simp add: LookupSource_def)
    ultimately show ?thesis using src by blast
  qed
qed

lemma InvalidatePage_inv:
  assumes inv: "cache_inv gt s" and pn: "pn < NUM_PAGES"
  shows "\<exists>s'. InvalidatePage gt pn s = Some (Inr s') \<and> cache_inv gt s' \<and>
           (\<forall>p. (\<exists>i. linked s (unat pn) (p, i)) \<longrightarrow> sources s' p = None) \<and>
           (\<forall>p. \<not> (\<exists>i. linked s (unat pn) (p, i)) \<longrightarrow>
                header s' p = header s p \<and> (\<forall>i. tag s' (p, i) = tag s (p, i))) \<and>
           next_source s' = next_source s \<and>
           head (m_page_sources s' (unat pn)) = None \<and> tail (m_page_sources s' (unat pn)) = None \<and>
           InvalidatePage gt pn s' = Some (Inr s')"
proof -
  from inv obtain L where wf: "well_formed s L {}" and ok: "\<forall>p. source_ok gt s p"
    and uq: "\<forall>p q k n t n' t'. header s p = Some (k, n, t) \<and> header s q = Some (k, n', t') \<longrightarrow> p = q"
    unfolding cache_inv_def by blast
  from pn have n: "unat pn < unat NUM_PAGES" by (simp add: word_less_nat_alt)
  note own = well_formed_list_owners [OF wf n]
  from InvalidatePage_wf [OF wf pn, of gt] obtain s' where
    run: "InvalidatePage gt pn s = Some (Inr s')"
    and wf': "well_formed s' (\<lambda>q. filter (\<lambda>y. fst y \<notin> fst ` set (L (unat pn))) (L q)) {}"
    and dead: "\<forall>p \<in> fst ` set (L (unat pn)). sources s' p = None"
    and keep: "\<forall>p. p \<notin> fst ` set (L (unat pn)) \<longrightarrow> rel_option stable (sources s p) (sources s' p)"
    and ns: "next_source s' = next_source s"
    and ht: "head (m_page_sources s' (unat pn)) = None" "tail (m_page_sources s' (unat pn)) = None"
    and again: "InvalidatePage gt pn s' = Some (Inr s')"
    by blast
  have d: "sources s' p = None" if "\<exists>i. linked s (unat pn) (p, i)" for p
    using dead that own by blast
  have k: "header s' p = header s p \<and> (\<forall>i. tag s' (p, i) = tag s (p, i))"
    if "\<not> (\<exists>i. linked s (unat pn) (p, i))" for p
  proof -
    from that own have "p \<notin> fst ` set (L (unat pn))" by blast
    with keep have "rel_option stable (sources s p) (sources s' p)" by blast
    then show ?thesis by (simp add: rel_option_stable_iff)
  qed
  have ok': "source_ok gt s' p" for p
  proof (cases "\<exists>i. linked s (unat pn) (p, i)")
    case True
    from d [OF this] show ?thesis by (rule source_ok_dead)
  next
    case False
    from k [OF this] ok show ?thesis by (auto intro: source_ok_transfer)
  qed
  have hd: "header s' p = Some v \<Longrightarrow> header s p = Some v" for p v
  proof (cases "\<exists>i. linked s (unat pn) (p, i)")
    case True
    assume "header s' p = Some v"
    with d [OF True] show ?thesis by (simp add: header_def)
  next
    case False
    assume "header s' p = Some v"
    with k [OF False] show ?thesis by simp
  qed
  have uq': "\<forall>p q k n t n' t'. header s' p = Some (k, n, t) \<and> header s' q = Some (k, n', t') \<longrightarrow> p = q"
  proof (intro allI impI)
    fix p q k n t n' t'
    assume "header s' p = Some (k, n, t) \<and> header s' q = Some (k, n', t')"
    then have "header s p = Some (k, n, t)" "header s q = Some (k, n', t')"
      by (auto dest: hd)
    with uq show "p = q" by blast
  qed
  from wf' ok' uq' have "cache_inv gt s'" unfolding cache_inv_def by blast
  with run d k ns ht again show ?thesis by blast
qed

lemma InvalidatePage_Inr_page:
  assumes "InvalidatePage gt pn s = Some (Inr s')"
  shows "pn < NUM_PAGES"
proof (rule ccontr)
  assume "\<not> pn < NUM_PAGES"
  then have "\<not> unat pn < unat NUM_PAGES" by (simp add: word_less_nat_alt)
  with assms show False
    by (simp add: InvalidatePage_def get_list_def split: if_splits)
qed

lemma CreateSource_inv:
  assumes inv: "cache_inv gt s"
    and miss: "\<forall>p a. sources s p = Some a \<longrightarrow> key a \<noteq> k"
    and run: "CreateSource gt g f k s = Some (Inr (r, s'))"
  shows "cache_inv gt s' \<and>
         (\<forall>p. p \<noteq> next_source s \<longrightarrow> header s' p = header s p \<and> (\<forall>i. tag s' (p, i) = tag s (p, i))) \<and>
         (\<forall>p a. sources s p = Some a \<longrightarrow> p \<noteq> next_source s) \<and>
         (case r of None \<Rightarrow> f = None \<and> s' = s
          | Some p \<Rightarrow> p = next_source s \<and> (\<exists>n t. header s' p = Some (k, n, t)))"
proof (cases f)
  case None
  with run have "r = None" "s' = s" by simp_all
  moreover from inv obtain L where "well_formed s L {}" unfolding cache_inv_def by blast
  from well_formed_fresh [OF this] have "\<forall>p a. sources s p = Some a \<longrightarrow> p \<noteq> next_source s" by auto
  ultimately show ?thesis using inv None by simp
next
  case (Some tex)
  from inv obtain L where wf: "well_formed s L {}" and ok: "\<forall>p. source_ok gt s p"
    and uq: "\<forall>p q k n t n' t'. header s p = Some (k, n, t) \<and> header s q = Some (k, n', t') \<longrightarrow> p = q"
    unfolding cache_inv_def by blast
  let ?r = "next_source s"
  from CreateSource_wf [OF wf run [unfolded Some]] obtain L' b texels where
    r: "r = Some ?r" and wf': "well_formed s' L' {}"
    and sb: "sources s' ?r = Some b" and kb: "key b = k" and p0: "0 < num_page_refs b"
    and t0: "tag s' (?r, 0) = Some (Some ?r, Some (unat (page k)))"
    and pk: "unat (page k) < unat NUM_PAGES"
    and reg: "\<forall>i < num_page_refs b. \<exists>c \<in> set (page_calls gt k).
               tag s' (?r, i) = Some (Some ?r, Some (unat c))"
    and cov: "\<forall>c \<in> set (page_calls gt k). \<exists>i < num_page_refs b.
               tag s' (?r, i) = Some (Some ?r, Some (unat c))"
    and oh: "\<forall>p'. p' \<noteq> ?r \<longrightarrow> header s' p' = header s p'"
    and ot: "\<forall>p' i. p' \<noteq> ?r \<longrightarrow> tag s' (p', i) = tag s (p', i)"
    by blast
  have hb: "header s' ?r = Some (k, num_page_refs b, texture b)"
    using sb kb by (simp add: header_def)
  have ok': "source_ok gt s' p" for p
  proof (cases "p = ?r")
    case True
    show ?thesis unfolding True source_ok_def hb using p0 pk t0 reg cov by simp
  next
    case False
    with oh ot ok show ?thesis by (auto intro: source_ok_transfer)
  qed
  have nk: "header s p \<noteq> Some (k, n, t)" for p n t
    using miss by (auto simp: header_Some_iff)
  have uq': "\<forall>p q k' n t n' t'. header s' p = Some (k', n, t) \<and> header s' q = Some (k', n', t') \<longrightarrow> p = q"
  proof (intro allI impI)
    fix p q k' n t n' t'
    assume h: "header s' p = Some (k', n, t) \<and> header s' q = Some (k', n', t')"
    show "p = q"
    proof (cases "p = ?r")
      case True
      with h hb have k': "k' = k" by simp
      show ?thesis
      proof (rule ccontr)
        assume "p \<noteq> q"
        with True have "q \<noteq> ?r" by simp
        with oh h k' have "header s q = Some (k, n', t')" by simp
        with nk show False by blast
      qed
    next
      case False
      with oh h have hp: "header s p = Some (k', n, t)" by simp
      show ?thesis
      proof (cases "q = ?r")
        case True
        with h hb have "k' = k" by simp
        with hp nk show ?thesis by blast
      next
        case qf: False
        with oh h have "header s q = Some (k', n', t')" by simp
        with hp uq show ?thesis by blast
      qed
    qed
  qed
  from wf' ok' uq' have "cache_inv gt s'" unfolding cache_inv_def by blast
  moreover from well_formed_fresh [OF wf] have "\<forall>p a. sources s p = Some a \<longrightarrow> p \<noteq> ?r" by auto
  ultimately show ?thesis using oh ot r hb by auto
qed

subsection \<open>The examples\<close>

lemma replicate_4: "replicate 4 x = [x, x, x, x]"
  by (simp add: numeral_eq_Suc)

lemma page_calls_key1: "page_calls psx_types key1 = [1, 1, 1, 1]"
  by (simp add: replicate_4 [symmetric] del: replicate_Suc replicate.simps add: page_calls_def key1_def LoopPages_calls_def PageStartX_def PageStartY_def
      WidthForMode_def TEXTURE_PAGE_WIDTH_def TEXTURE_PAGE_HEIGHT_def VRAM_PAGE_WIDTH_def
      VRAM_PAGE_HEIGHT_def VRAM_PAGES_WIDE_def VRAM_WIDTH_def PageIndex_def Let_def)

lemma footprint_key1:
  "0 \<notin> footprint psx_types key1" "1 \<in> footprint psx_types key1"
  "2 \<in> footprint psx_types key1"
  by (simp_all add: footprint_def footprint_width_def key1_def in_covering_pages tile_meets_def)

lemma calls_rect: "LoopPages_calls 0 0 128 1 = [0, 0]"
  by (simp add: LoopPages_calls_def VRAM_PAGE_WIDTH_def
      VRAM_PAGE_HEIGHT_def VRAM_PAGES_WIDE_def VRAM_WIDTH_def PageIndex_def Let_def)

lemma cover_rect: "1 \<in> set (covering_pages 0 0 128 1)"
  by (simp add: in_covering_pages tile_meets_def)

subsection \<open>Runs of operations\<close>

lemma kept_refl: "kept s s p"
  by (simp add: kept_def)

lemma kept_trans: "kept s t p \<Longrightarrow> kept t u p \<Longrightarrow> kept s u p"
  by (simp add: kept_def)

lemma kept_linked: "kept s s' p \<Longrightarrow> linked s' q (p, i) = linked s q (p, i)"
  by (simp add: kept_def linked_iff)

lemma well_formed_empty_cache: "well_formed empty_cache (\<lambda>_. []) {}"
  by (simp add: well_formed_def empty_cache_def list_is_def last_of_def)

lemma cache_inv_empty: "cache_inv gt empty_cache"
proof -
  have "header empty_cache p = None" for p by (simp add: header_def empty_cache_def)
  then show ?thesis
    unfolding cache_inv_def source_ok_def using well_formed_empty_cache by auto
qed

lemma LookupSource_Inr_page:
  assumes "LookupSource gt g f k s = Some (Inr v)"
  shows "unat (page k) < unat NUM_PAGES"
  using assms by (simp add: LookupSource_def get_list_def split: if_splits)

lemma LookupSource_inv:
  assumes inv: "cache_inv gt s" and run: "LookupSource gt g f k s = Some (Inr (r, s'))"
  shows "cache_inv gt s' \<and> (\<forall>p a. sources s p = Some a \<longrightarrow> kept s s' p) \<and>
         (\<forall>p. r = Some p \<longrightarrow> (\<exists>n t. header s' p = Some (k, n, t)))"
proof -
  note pk = LookupSource_Inr_page [OF run]
  from LookupSource_cases [OF inv pk, of g f] show ?thesis
  proof
    assume "\<exists>p a. sources s p = Some a \<and> key a = k \<and>
              LookupSource gt g f k s = Some (Inr (Some p, s))"
    then obtain p a where a: "sources s p = Some a" "key a = k"
      and l: "LookupSource gt g f k s = Some (Inr (Some p, s))" by blast
    from l run have e: "r = Some p" "s' = s" by simp_all
    from a have "header s p = Some (k, num_page_refs a, texture a)" by (simp add: header_def)
    with e inv show ?thesis by (auto simp: kept_refl)
  next
    assume "(\<forall>p a. sources s p = Some a \<longrightarrow> key a \<noteq> k) \<and>
              LookupSource gt g f k s = CreateSource gt g f k s"
    then have miss: "\<forall>p a. sources s p = Some a \<longrightarrow> key a \<noteq> k"
      and c: "CreateSource gt g f k s = Some (Inr (r, s'))" using run by simp_all
    from CreateSource_inv [OF inv miss c] have i': "cache_inv gt s'"
      and o: "\<forall>p. p \<noteq> next_source s \<longrightarrow> header s' p = header s p \<and> (\<forall>i. tag s' (p, i) = tag s (p, i))"
      and fr: "\<forall>p a. sources s p = Some a \<longrightarrow> p \<noteq> next_source s"
      and rr: "case r of None \<Rightarrow> f = None \<and> s' = s
          | Some p \<Rightarrow> p = next_source s \<and> (\<exists>n t. header s' p = Some (k, n, t))"
      by blast+
    from o fr have "\<forall>p a. sources s p = Some a \<longrightarrow> kept s s' p" by (auto simp: kept_def)
    moreover from rr have "\<forall>p. r = Some p \<longrightarrow> (\<exists>n t. header s' p = Some (k, n, t))" by auto
    ultimately show ?thesis using i' by blast
  qed
qed

lemma foldO_InvalidatePage_inv:
  assumes "cache_inv gt s" "foldO (InvalidatePage gt) cs s = Some (Inr s')"
  shows "cache_inv gt s' \<and>
         (\<forall>p. (\<forall>c \<in> set cs. \<forall>i. \<not> linked s (unat c) (p, i)) \<longrightarrow> kept s s' p) \<and>
         (\<forall>c \<in> set cs. c < NUM_PAGES)"
  using assms
proof (induction cs arbitrary: s)
  case Nil
  then show ?case by (simp add: kept_refl)
next
  case (Cons c cs)
  from Cons.prems(2) obtain s1 where 1: "InvalidatePage gt c s = Some (Inr s1)"
    and 2: "foldO (InvalidatePage gt) cs s1 = Some (Inr s')"
    by (auto simp: bindO_Inr_iff)
  note c = InvalidatePage_Inr_page [OF 1]
  from InvalidatePage_inv [OF Cons.prems(1) c] 1 have i1: "cache_inv gt s1"
    and k1: "\<forall>p. \<not> (\<exists>i. linked s (unat c) (p, i)) \<longrightarrow> kept s s1 p"
    by (auto simp: kept_def)
  from Cons.IH [OF i1 2] have i': "cache_inv gt s'"
    and k2: "\<forall>p. (\<forall>c \<in> set cs. \<forall>i. \<not> linked s1 (unat c) (p, i)) \<longrightarrow> kept s1 s' p"
    and lt: "\<forall>c \<in> set cs. c < NUM_PAGES"
    by blast+
  have "kept s s' p" if p: "\<forall>c' \<in> set (c # cs). \<forall>i. \<not> linked s (unat c') (p, i)" for p
  proof -
    from p k1 have a: "kept s s1 p" by simp
    from p kept_linked [OF a] have "\<forall>c \<in> set cs. \<forall>i. \<not> linked s1 (unat c) (p, i)" by simp
    with k2 have "kept s1 s' p" by blast
    with a show ?thesis by (rule kept_trans)
  qed
  with i' lt c show ?case by simp
qed

lemma InvalidatePages_fold:
  assumes "InvalidatePages gt x y w h s = Some (Inr s')"
  shows "foldO (InvalidatePage gt) (LoopPages_calls x y w h) s = Some (Inr s')"
  using assms unfolding InvalidatePages_def by (rule LoopPages_Inr)

lemma Clear_loop_inv:
  assumes "cache_inv gt s" "Clear_loop gt n s = Some (Inr s')"
  shows "cache_inv gt s'"
  using assms
proof (induction n arbitrary: s')
  case 0
  then show ?case by simp
next
  case (Suc n)
  from Suc.prems(2) obtain s1 where 1: "Clear_loop gt n s = Some (Inr s1)"
    and 2: "InvalidatePage gt (of_nat n) s1 = Some (Inr s')"
    by (auto simp: bindO_Inr_iff)
  from Suc.IH [OF Suc.prems(1) 1] have "cache_inv gt s1" .
  from InvalidatePage_inv [OF this InvalidatePage_Inr_page [OF 2]] 2 show ?case by auto
qed

lemma Clear_inv:
  assumes "cache_inv gt s" "Clear gt s = Some (Inr s')"
  shows "cache_inv gt s'"
proof -
  from assms(2) have "Clear_loop gt (unat NUM_PAGES) s = Some (Inr s')"
    by (auto simp: Clear_def bindO_Inr_iff split: if_splits)
  with assms(1) show ?thesis by (rule Clear_loop_inv)
qed

lemma run_op_inv:
  assumes inv: "cache_inv gt s" and run: "run_op gt c s = Some (Inr s')"
  shows "cache_inv gt s'"
proof (cases c)
  case (OpLookupSource g f k)
  with run obtain r where "LookupSource gt g f k s = Some (Inr (r, s'))"
    by (auto simp: bindO_Inr_iff)
  from LookupSource_inv [OF inv this] show ?thesis by blast
next
  case (OpInvalidatePage pn)
  with run have r: "InvalidatePage gt pn s = Some (Inr s')" by simp
  from InvalidatePage_inv [OF inv InvalidatePage_Inr_page [OF r]] r show ?thesis by auto
next
  case (OpInvalidatePages x y w h)
  with run have "InvalidatePages gt x y w h s = Some (Inr s')" by simp
  from foldO_InvalidatePage_inv [OF inv InvalidatePages_fold [OF this]] show ?thesis by blast
next
  case OpClear
  with run inv show ?thesis by (auto intro: Clear_inv)
qed

lemma reachable_inv: "reachable gt s \<Longrightarrow> cache_inv gt s"
  by (induction rule: reachable.induct) (auto intro: cache_inv_empty run_op_inv)

lemma WidthForMode_footprint: "unat (WidthForMode m) = footprint_width m"
  by (cases m) (simp_all add: WidthForMode_def footprint_width_def TEXTURE_PAGE_WIDTH_def
      drop_bit_eq_div)

lemma footprint_width_pos: "0 < footprint_width m"
  by (cases m) (simp_all add: footprint_width_def)

lemma paletted_iff: "mode_u8 m < mode_u8 Direct16Bit \<longleftrightarrow> m = Palette4Bit \<or> m = Palette8Bit"
  by (cases m) simp_all

lemma page_calls_footprint:
  assumes gt: "palettes_in_vram gt" and pk: "unat (page k) < 32"
    and c: "c \<in> set (page_calls gt k)"
  shows "unat c \<in> footprint gt k"
proof -
  define pn :: u32 where "pn = ucast (page k)"
  have u: "unat pn = unat (page k)" by (simp add: pn_def unat_ucast_u8_u32)
  with pk have u256: "unat pn < 256" by simp
  from pixel_rect_calls [OF u256, of "mode k"] obtain n where
    c1: "LoopPages_calls (PageStartX pn) (PageStartY pn) (WidthForMode (mode k)) TEXTURE_PAGE_HEIGHT
           = replicate (Suc n) pn" by blast
  from palette_rect_one_row [of "GetXBase gt (palette k)" "GetYBase gt (palette k)"
        "GetWidth gt (mode k)"] obtain n2 where
    c2: "LoopPages_calls (GetXBase gt (palette k)) (GetYBase gt (palette k))
             (GetWidth gt (mode k)) 1 =
           replicate n2 (PageIndex (GetXBase gt (palette k) div VRAM_PAGE_WIDTH)
                            (GetYBase gt (palette k) div VRAM_PAGE_HEIGHT))" by blast
  from c c1 c2 have "c = pn \<or>
     (mode_u8 (mode k) < mode_u8 Direct16Bit \<and>
      c = PageIndex (GetXBase gt (palette k) div VRAM_PAGE_WIDTH)
                    (GetYBase gt (palette k) div VRAM_PAGE_HEIGHT))"
    by (auto simp: page_calls_def pn_def split: if_splits)
  then show ?thesis
  proof
    assume "c = pn"
    then have uc: "unat c = unat (page k)" by (simp add: u)
    define P where "P = unat (page k)"
    have "(P div 16) * 16 + (64 * (P mod 16)) div 64 \<in>
          set (covering_pages (64 * (P mod 16)) (256 * (P div 16)) (footprint_width (mode k)) 256)"
    proof -
      have "P mod 16 < 16" by simp
      then have x: "64 * (P mod 16) < 1024" by simp
      from pk have "P div 16 < 2" by (simp add: P_def)
      then have "P div 16 = 0 \<or> P div 16 = 1" by (cases "P div 16") simp_all
      then have yh: "256 * (P div 16) + 256 \<le> 512" by auto
      have d: "256 * (P div 16) div 256 = P div 16" by simp
      from covering_rows [OF x footprint_width_pos _ yh, of "P div 16" "mode k"]
      show ?thesis by (simp add: d)
    qed
    moreover have "(P div 16) * 16 + (64 * (P mod 16)) div 64 = P" by simp
    ultimately show ?thesis by (simp add: footprint_def uc P_def)
  next
    assume a: "mode_u8 (mode k) < mode_u8 Direct16Bit \<and>
      c = PageIndex (GetXBase gt (palette k) div VRAM_PAGE_WIDTH)
                    (GetYBase gt (palette k) div VRAM_PAGE_HEIGHT)"
    then have m: "mode k = Palette4Bit \<or> mode k = Palette8Bit" by (simp only: paletted_iff)
    define X where "X = unat (GetXBase gt (palette k))"
    define Y where "Y = unat (GetYBase gt (palette k))"
    define W where "W = unat (GetWidth gt (mode k))"
    from gt have X: "X < 1024" and Y: "Y < 512" and W: "0 < W"
      unfolding palettes_in_vram_def X_def Y_def W_def by blast+
    have sx: "unat (GetXBase gt (palette k) div VRAM_PAGE_WIDTH) < 16"
      using X by (simp add: unat_div_64 X_def)
    have sy: "unat (GetYBase gt (palette k) div VRAM_PAGE_HEIGHT) < 2"
      using Y by (simp add: unat_div_256 Y_def)
    from a unat_PageIndex_small [OF sx sy] have uc: "unat c = (Y div 256) * 16 + X div 64"
      by (simp add: unat_div_64 unat_div_256 X_def Y_def)
    from Y have yh: "Y + 1 \<le> 512" by simp
    have "(Y div 256) * 16 + X div 64 \<in> set (covering_pages X Y W 1)"
      by (rule covering_rows [OF X W _ yh]) simp_all
    with m show ?thesis by (simp add: footprint_def uc X_def Y_def W_def)
  qed
qed

lemma palettes_in_vram_psx: "palettes_in_vram psx_types"
proof -
  have x: "unat (ucast (p AND 0x3F :: u16) * 16 :: u32) < 1024" for p
  proof -
    have "p AND 0x3F \<le> 0x3F" by (rule word_and_le1)
    then have "unat (p AND 0x3F) \<le> unat (0x3F :: u16)" by (simp only: word_le_nat_alt)
    then have a: "unat (ucast (p AND 0x3F) :: u32) \<le> 63"
      by (simp add: unsigned_ucast_eq take_bit_nat_eq_self)
    then have "unat (ucast (p AND 0x3F) :: u32) * unat (16 :: u32) < 2 ^ LENGTH(32)" by simp
    then have "unat (ucast (p AND 0x3F) * 16 :: u32) = unat (ucast (p AND 0x3F) :: u32) * unat (16 :: u32)"
      by (simp only: unat_mult_lem)
    with a show ?thesis by simp
  qed
  have y: "unat (ucast (drop_bit 6 p AND 0x1FF :: u16) :: u32) < 512" for p
  proof -
    have "drop_bit 6 p AND 0x1FF \<le> 0x1FF" by (rule word_and_le1)
    then have "unat (drop_bit 6 p AND 0x1FF) \<le> unat (0x1FF :: u16)"
      by (simp only: word_le_nat_alt)
    then show ?thesis by (simp add: unsigned_ucast_eq take_bit_nat_eq_self)
  qed
  from x y show ?thesis by (simp add: palettes_in_vram_def psx_types_def)
qed

lemma registered_in_calls:
  assumes ok: "source_ok gt s r" and h: "header s r = Some (k, n, t)"
    and l: "linked s q (r, i)"
  shows "\<exists>c \<in> set (page_calls gt k). q = unat c"
proof -
  from l h have i: "i < n" and t: "tag s (r, i) = Some (Some r, Some q)"
    by (auto simp: linked_iff)
  from ok h i obtain c where "c \<in> set (page_calls gt k)"
    "tag s (r, i) = Some (Some r, Some (unat c))"
    unfolding source_ok_def by blast
  with t show ?thesis by auto
qed

lemma quiet_op_keeps:
  assumes inv: "cache_inv gt s" and gt: "palettes_in_vram gt"
    and h: "header s r = Some (k, n, t)"
    and q: "quiet gt k c" and run: "run_op gt c s = Some (Inr s')"
  shows "kept s s' r"
proof -
  from inv have ok: "source_ok gt s r" unfolding cache_inv_def by blast
  from h obtain a where a: "sources s r = Some a" by (auto simp: header_Some_iff)
  from ok h have "unat (page k) < unat NUM_PAGES" unfolding source_ok_def by blast
  then have pk: "unat (page k) < 32" by (simp add: unat_NUM_PAGES)
  have nl: "\<not> linked s pn (r, i)" if "pn \<notin> footprint gt k" for pn i
  proof
    assume "linked s pn (r, i)"
    from registered_in_calls [OF ok h this] obtain c where
      c: "c \<in> set (page_calls gt k)" and "pn = unat c" by blast
    with page_calls_footprint [OF gt pk c] that show False by simp
  qed
  show ?thesis
  proof (cases c)
    case (OpLookupSource g f k')
    with run obtain r' where "LookupSource gt g f k' s = Some (Inr (r', s'))"
      by (auto simp: bindO_Inr_iff)
    from LookupSource_inv [OF inv this] a show ?thesis by blast
  next
    case (OpInvalidatePage pn)
    with run have r: "InvalidatePage gt pn s = Some (Inr s')" by simp
    from OpInvalidatePage q have "unat pn \<notin> footprint gt k" by simp
    from nl [OF this] have "\<not> (\<exists>i. linked s (unat pn) (r, i))" by blast
    with InvalidatePage_inv [OF inv InvalidatePage_Inr_page [OF r]] r show ?thesis
      by (auto simp: kept_def)
  next
    case (OpInvalidatePages x y w h)
    with run have "InvalidatePages gt x y w h s = Some (Inr s')" by simp
    note f = foldO_InvalidatePage_inv [OF inv InvalidatePages_fold [OF this]]
    from OpInvalidatePages q have r: "0 < unat w" "0 < unat h" "unat x + unat w \<le> 1024"
      "unat y + unat h \<le> 512"
      and d: "set (covering_pages (unat x) (unat y) (unat w) (unat h)) \<inter> footprint gt k = {}"
      by simp_all
    have "\<forall>c \<in> set (LoopPages_calls x y w h). unat c \<notin> footprint gt k"
    proof
      fix c assume "c \<in> set (LoopPages_calls x y w h)"
      from LoopPages_calls_covering [OF r this] d show "unat c \<notin> footprint gt k" by blast
    qed
    with nl have "\<forall>c \<in> set (LoopPages_calls x y w h). \<forall>i. \<not> linked s (unat c) (r, i)" by blast
    with f show ?thesis by blast
  next
    case OpClear
    with q show ?thesis by simp
  qed
qed

lemma quiet_ops_keep:
  assumes gt: "palettes_in_vram gt"
  shows "cache_inv gt s \<Longrightarrow> header s r = Some (k, n, t) \<Longrightarrow>
         \<forall>c \<in> set ops. quiet gt k c \<Longrightarrow> foldO (run_op gt) ops s = Some (Inr s') \<Longrightarrow>
         cache_inv gt s' \<and> header s' r = Some (k, n, t)"
proof (induction ops arbitrary: s)
  case Nil
  then show ?case by simp
next
  case (Cons c ops)
  from Cons.prems(4) obtain s1 where 1: "run_op gt c s = Some (Inr s1)"
    and 2: "foldO (run_op gt) ops s1 = Some (Inr s')"
    by (auto simp: bindO_Inr_iff)
  from Cons.prems(3) have q: "quiet gt k c" and qs: "\<forall>c \<in> set ops. quiet gt k c" by simp_all
  from quiet_op_keeps [OF Cons.prems(1) gt Cons.prems(2) q 1] Cons.prems(2)
  have h1: "header s1 r = Some (k, n, t)" by (simp add: kept_def)
  from Cons.IH [OF run_op_inv [OF Cons.prems(1) 1] h1 qs 2] show ?case .
qed

lemma LookupSource_hit:
  assumes inv: "cache_inv gt s" and h: "header s r = Some (k, n, t)"
  shows "LookupSource gt g f k s = Some (Inr (Some r, s))"
proof -
  from h obtain a where a: "sources s r = Some a" "key a = k" by (auto simp: header_Some_iff)
  from inv have ok: "source_ok gt s r"
    and uq: "\<forall>p q k n t n' t'. header s p = Some (k, n, t) \<and> header s q = Some (k, n', t') \<longrightarrow> p = q"
    unfolding cache_inv_def by blast+
  from ok h have pk: "unat (page k) < unat NUM_PAGES" unfolding source_ok_def by blast
  from LookupSource_cases [OF inv pk, of g f] a obtain p b where
    b: "sources s p = Some b" "key b = k" and l: "LookupSource gt g f k s = Some (Inr (Some p, s))"
    by blast
  from b have "header s p = Some (k, num_page_refs b, texture b)" by (simp add: header_def)
  with h uq have "p = r" by blast
  with l show ?thesis by simp
qed

subsection \<open>Lookups that return\<close>

lemma NUM_PAGES_32: "NUM_PAGES = 32"
  by (simp add: NUM_PAGES_def VRAM_PAGES_WIDE_def VRAM_PAGES_HIGH_def VRAM_WIDTH_def
      VRAM_HEIGHT_def VRAM_PAGE_WIDTH_def VRAM_PAGE_HEIGHT_def)

lemma LookupSource_total:
  assumes inv: "cache_inv gt s" and pk: "unat (page k) < unat NUM_PAGES"
    and d: "DecodeTexture gt g (page k) (palette k) (mode k) = Inr texels"
    and lt: "\<forall>c \<in> set (page_calls gt k). c < NUM_PAGES"
    and nd: "\<not> debug_build gt"
  shows "\<exists>r s'. LookupSource gt g (Some tex) k s = Some (Inr (Some r, s'))"
proof -
  from inv obtain L where wf: "well_formed s L {}" unfolding cache_inv_def by blast
  from LookupSource_cases [OF inv pk, of g "Some tex"] CreateSource_total [OF wf d lt nd, of tex]
  show ?thesis by auto
qed

lemma LookupSource_empty:
  assumes pk: "unat (page k) < unat NUM_PAGES"
    and d: "DecodeTexture gt g (page k) (palette k) (mode k) = Inr texels"
    and lt: "\<forall>c \<in> set (page_calls gt k). c < NUM_PAGES"
    and nd: "\<not> debug_build gt"
  shows "\<exists>s'. LookupSource gt g (Some tex) k empty_cache = Some (Inr (Some 0, s')) \<and>
           CreateSource gt g (Some tex) k empty_cache = Some (Inr (Some 0, s'))"
proof -
  have e: "sources empty_cache p = None" "next_source empty_cache = 0" for p
    by (simp_all add: empty_cache_def)
  from LookupSource_cases [OF cache_inv_empty pk, of gt g "Some tex"] e
  have "LookupSource gt g (Some tex) k empty_cache = CreateSource gt g (Some tex) k empty_cache"
    by auto
  with CreateSource_total [OF well_formed_empty_cache d lt nd, of tex] e show ?thesis by auto
qed

lemma decode_key1: "\<exists>texels. DecodeTexture psx_types g 1 0 Direct16Bit = Inr texels"
proof -
  have "page_origin (unat (1 :: u8)) + 255 * unat VRAM_WIDTH + 255 < unat VRAM_WIDTH * unat VRAM_HEIGHT"
    by (simp only: page_origin_16bit) simp
  from DecodeTexture16_total [OF this, of psx_types g] VRAMPagePointer_u8 [of 1]
  show ?thesis by simp
qed

lemma decode_key2: "\<exists>texels. DecodeTexture psx_types g 17 65 Palette4Bit = Inr texels"
proof -
  have q: "clut_origin psx_types 65 = 1040"
    by (simp add: psx_types_def clut_origin_def)
  then have "clut_origin psx_types 65 < 2 ^ 32" by simp
  from palette_pointer_eq [OF this] q have p: "palette_pointer psx_types 65 = 1040" by simp
  have r: "(1040 :: nat) + 15 < unat VRAM_WIDTH * unat VRAM_HEIGHT"
    by (simp add: VRAM_WIDTH_def VRAM_HEIGHT_def)
  have "unat (17 :: u8) < 32" by simp
  from DecodeTexture4_total [OF page_origin_4bit [OF this] r, of psx_types g]
    VRAMPagePointer_u8 [of 17]
  show ?thesis by (simp add: p)
qed

lemma page_calls_key2: "page_calls psx_types key2 = [17, 0]"
  by (simp add: page_calls_def key2_def LoopPages_calls_def PageStartX_def PageStartY_def
      WidthForMode_def TEXTURE_PAGE_WIDTH_def TEXTURE_PAGE_HEIGHT_def VRAM_PAGE_WIDTH_def
      VRAM_PAGE_HEIGHT_def VRAM_PAGES_WIDE_def VRAM_WIDTH_def PageIndex_def Let_def
      psx_types_def)

lemma lookup_key1_empty:
  "\<exists>s'. LookupSource psx_types g (Some tex) key1 empty_cache = Some (Inr (Some 0, s')) \<and>
        CreateSource psx_types g (Some tex) key1 empty_cache = Some (Inr (Some 0, s'))"
proof -
  from decode_key1 [of g] obtain texels where
    d: "DecodeTexture psx_types g (page key1) (palette key1) (mode key1) = Inr texels"
    by (auto simp: key1_def)
  have pk: "unat (page key1) < unat NUM_PAGES" by (simp add: key1_def unat_NUM_PAGES)
  have lt: "\<forall>c \<in> set (page_calls psx_types key1). c < NUM_PAGES"
    by (simp add: page_calls_key1 NUM_PAGES_32)
  have nd: "\<not> debug_build psx_types" by (simp add: psx_types_def)
  from LookupSource_empty [OF pk d lt nd] show ?thesis .
qed

lemma lookup_key2_empty:
  "\<exists>s'. LookupSource psx_types g (Some tex) key2 empty_cache = Some (Inr (Some 0, s')) \<and>
        CreateSource psx_types g (Some tex) key2 empty_cache = Some (Inr (Some 0, s'))"
proof -
  from decode_key2 [of g] obtain texels where
    d: "DecodeTexture psx_types g (page key2) (palette key2) (mode key2) = Inr texels"
    by (auto simp: key2_def)
  have pk: "unat (page key2) < unat NUM_PAGES" by (simp add: key2_def unat_NUM_PAGES)
  have lt: "\<forall>c \<in> set (page_calls psx_types key2). c < NUM_PAGES"
    by (simp add: page_calls_key2 NUM_PAGES_32)
  have nd: "\<not> debug_build psx_types" by (simp add: psx_types_def)
  from LookupSource_empty [OF pk d lt nd] show ?thesis .
qed

lemma reachable_lookup:
  assumes "reachable gt s" "LookupSource gt g f k s = Some (Inr (r, s'))"
  shows "reachable gt s'"
proof -
  from assms(2) have "run_op gt (OpLookupSource g f k) s = Some (Inr s')" by simp
  with assms(1) show ?thesis by (rule reachable.step)
qed

lemma lookup_key1_state:
  "\<exists>s1 n t. LookupSource psx_types g (Some tex) key1 empty_cache = Some (Inr (Some 0, s1)) \<and>
     cache_inv psx_types s1 \<and> reachable psx_types s1 \<and> header s1 0 = Some (key1, n, t) \<and>
     (\<forall>p. p \<noteq> 0 \<longrightarrow> header s1 p = None)"
proof -
  from lookup_key1_empty [of g tex] obtain s1 where
    l: "LookupSource psx_types g (Some tex) key1 empty_cache = Some (Inr (Some 0, s1))"
    and c: "CreateSource psx_types g (Some tex) key1 empty_cache = Some (Inr (Some 0, s1))"
    by blast
  have miss: "\<forall>p a. sources empty_cache p = Some a \<longrightarrow> key a \<noteq> key1"
    by (simp add: empty_cache_def)
  have e: "next_source empty_cache = 0" "header empty_cache p = None" for p
    by (simp_all add: empty_cache_def header_def)
  from CreateSource_inv [OF cache_inv_empty miss c] e
  have "cache_inv psx_types s1" and "\<forall>p. p \<noteq> 0 \<longrightarrow> header s1 p = None"
    and "\<exists>n t. header s1 0 = Some (key1, n, t)"
    by auto
  with l reachable_lookup [OF reachable.start l] show ?thesis by blast
qed

lemma key1_not_linked:
  assumes inv: "cache_inv psx_types s" and h: "header s 0 = Some (key1, n, t)"
    and q: "q \<noteq> 1"
  shows "\<not> linked s q (0, i)"
proof
  assume l: "linked s q (0, i)"
  from inv have "source_ok psx_types s 0" unfolding cache_inv_def by blast
  from registered_in_calls [OF this h l] q show False
    by (simp add: page_calls_key1)
qed

lemma no_owner_empty_list:
  assumes inv: "cache_inv gt s" and pn: "pn < unat NUM_PAGES"
    and no: "\<forall>p i. \<not> linked s pn (p, i)"
  shows "head (m_page_sources s pn) = None \<and> tail (m_page_sources s pn) = None"
proof -
  from inv obtain L where wf: "well_formed s L {}" unfolding cache_inv_def by blast
  from well_formed_list_owners [OF wf pn] no have "L pn = []" by simp
  moreover from wf pn have "list_is s pn (L pn)" unfolding well_formed_def by blast
  ultimately show ?thesis by (simp add: list_is_Nil)
qed

lemma InvalidatePage_loop_None: "InvalidatePage_loop None s = Some (Inr s)"
  by (subst InvalidatePage_loop.simps) simp

lemma InvalidatePage_Inr_again:
  assumes "InvalidatePage gt pn s = Some (Inr s')"
  shows "head (m_page_sources s' (unat pn)) = None \<and> tail (m_page_sources s' (unat pn)) = None \<and>
         InvalidatePage gt pn s' = Some (Inr s')"
proof -
  note pn = InvalidatePage_Inr_page [OF assms]
  then have n: "unat pn < unat NUM_PAGES" by (simp add: word_less_nat_alt)
  from assms pn n obtain s1 where
    "set_list (unat pn) (\<lambda>l. l\<lparr>head := None, tail := None\<rparr>) s1 = Inr s'"
    by (auto simp: InvalidatePage_def get_list_def bindO_Inr_iff split: if_splits)
  with n have ht: "head (m_page_sources s' (unat pn)) = None" "tail (m_page_sources s' (unat pn)) = None"
    by (auto simp: set_list_def)
  then have "list_is s' (unat pn) []" by (simp add: list_is_Nil)
  from set_list_clear_id [OF this n] pn n ht have "InvalidatePage gt pn s' = Some (Inr s')"
    by (simp add: InvalidatePage_def get_list_def InvalidatePage_loop_None)
  with ht show ?thesis by simp
qed

section \<open>The claims on the texture cache\<close>

text \<open>
  C1. \<^verbatim>\<open>InvalidatePages\<close> does not invalidate the covering set of its rectangle. The
  rectangle of 128 by 1 pixels at (0, 0) covers pages 0 and 1, and page 1 is the page
  of the key of page 1 in 16-bit mode; yet after this key has been looked up in the new
  cache, \<^verbatim>\<open>InvalidatePages(0, 0, 128, 1)\<close> returns and every later lookup of the key
  returns the Source of the first lookup, whatever video memory holds and whether or not
  the device has a texture to give: nothing is decoded. The inner loop of
  \<^verbatim>\<open>LoopPages\<close> passes \<^verbatim>\<open>page_number\<close> to the callback and increments
  \<^verbatim>\<open>y_page_number\<close>, so page 0 is invalidated twice and page 1 never.
\<close>

theorem InvalidatePages_leaves_stale_source:
  "\<exists>s1 s2. LookupSource psx_types zero_vram (Some texture0) key1 empty_cache =
              Some (Inr (Some 0, s1)) \<and>
           1 \<in> set (covering_pages 0 0 128 1) \<and> 1 \<in> footprint psx_types key1 \<and>
           InvalidatePages psx_types 0 0 128 1 s1 = Some (Inr s2) \<and>
           (\<forall>g_vram fetched.
              LookupSource psx_types g_vram fetched key1 s2 = Some (Inr (Some 0, s2)))"
proof -
  from lookup_key1_state [of zero_vram texture0] obtain s1 n t where
    l: "LookupSource psx_types zero_vram (Some texture0) key1 empty_cache =
          Some (Inr (Some 0, s1))"
    and i1: "cache_inv psx_types s1" and h1: "header s1 0 = Some (key1, n, t)" by blast
  have z: "(0 :: u32) < NUM_PAGES" by (simp add: NUM_PAGES_32)
  from InvalidatePage_inv [OF i1 z] obtain sa where
    a: "InvalidatePage psx_types 0 s1 = Some (Inr sa)" and ia: "cache_inv psx_types sa"
    by blast
  from InvalidatePage_inv [OF ia z] obtain s2 where
    b: "InvalidatePage psx_types 0 sa = Some (Inr s2)"
    by blast
  have nd: "\<not> debug_build psx_types" by (simp add: psx_types_def)
  from a b have f: "foldO (InvalidatePage psx_types) (LoopPages_calls 0 0 128 1) s1 = Some (Inr s2)"
    by (simp add: calls_rect)
  with nd have run: "InvalidatePages psx_types 0 0 128 1 s1 = Some (Inr s2)"
    by (simp add: InvalidatePages_def LoopPages_fold)
  have "\<forall>c \<in> set (LoopPages_calls 0 0 128 1). \<forall>i. \<not> linked s1 (unat c) (0, i)"
    using key1_not_linked [OF i1 h1] by (simp add: calls_rect)
  with foldO_InvalidatePage_inv [OF i1 f] have i2: "cache_inv psx_types s2"
    and "kept s1 s2 0" by blast+
  with h1 have h2: "header s2 0 = Some (key1, n, t)" by (simp add: kept_def)
  have "LookupSource psx_types g f key1 s2 = Some (Inr (Some 0, s2))" for g f
    using i2 h2 by (rule LookupSource_hit)
  moreover have "1 \<in> set (covering_pages 0 0 128 1)" by (rule cover_rect)
  moreover have "1 \<in> footprint psx_types key1" by (rule footprint_key1)
  ultimately show ?thesis using l run by blast
qed

text \<open>
  C2. The page references of a Source are not the pages of its key's footprint. The key
  of page 1 in 16-bit mode depends on pages 1 to 4, yet after its lookup in the new
  cache the list of page 2 is empty: \<^verbatim>\<open>LoopPages\<close> passes the first page of each row
  of pages to \<^verbatim>\<open>add_page_ref\<close> once per page of the row, so the Source is in the list
  of page 1 alone.
\<close>

theorem page_refs_miss_footprint_pages:
  "\<exists>s1. LookupSource psx_types zero_vram (Some texture0) key1 empty_cache =
           Some (Inr (Some 0, s1)) \<and>
        2 \<in> footprint psx_types key1 \<and>
        head (m_page_sources s1 2) = None \<and> tail (m_page_sources s1 2) = None"
proof -
  from lookup_key1_state [of zero_vram texture0] obtain s1 n t where
    l: "LookupSource psx_types zero_vram (Some texture0) key1 empty_cache =
          Some (Inr (Some 0, s1))"
    and i1: "cache_inv psx_types s1" and h1: "header s1 0 = Some (key1, n, t)"
    and o: "\<forall>p. p \<noteq> 0 \<longrightarrow> header s1 p = None" by blast
  have no: "\<not> linked s1 2 (p, i)" for p i
  proof (cases "p = 0")
    case True
    with key1_not_linked [OF i1 h1, of 2 i] show ?thesis by simp
  next
    case False
    with o have "header s1 p = None" by blast
    then show ?thesis by (simp add: linked_iff)
  qed
  have "(2 :: nat) < unat NUM_PAGES" by (simp add: unat_NUM_PAGES)
  from no_owner_empty_list [OF i1 this] no
  have "head (m_page_sources s1 2) = None \<and> tail (m_page_sources s1 2) = None" by blast
  moreover have "2 \<in> footprint psx_types key1" by (rule footprint_key1)
  ultimately show ?thesis using l by blast
qed

text \<open>
  C3. In every reachable state of the cache no two Sources have the same key; and when
  a lookup of a key returns a Source, and operations follow that leave the key alone
  (lookups of any key, and invalidations of pages and of rectangles whose covering sets
  hold none of the pages the key depends on), then a further lookup of the key returns
  the same Source and leaves the state unchanged, whatever video memory holds by then and
  whether or not the device has a texture to give: it does not decode.
\<close>

theorem lookup_again_same_source:
  assumes "reachable gt s" and "palettes_in_vram gt"
  shows "(\<forall>p q a b. sources s p = Some a \<and> sources s q = Some b \<and> key a = key b \<longrightarrow> p = q) \<and>
         (\<forall>g_vram fetched k r s1 ops s2 g_vram' fetched'.
            LookupSource gt g_vram fetched k s = Some (Inr (Some r, s1)) \<and>
            (\<forall>c \<in> set ops. quiet gt k c) \<and> run_ops gt ops s1 = Some (Inr s2) \<longrightarrow>
            LookupSource gt g_vram' fetched' k s2 = Some (Inr (Some r, s2)))"
proof (intro conjI allI impI)
  note inv = reachable_inv [OF assms(1)]
  fix p q a b
  assume "sources s p = Some a \<and> sources s q = Some b \<and> key a = key b"
  then have "header s p = Some (key a, num_page_refs a, texture a)"
    "header s q = Some (key a, num_page_refs b, texture b)"
    by (simp_all add: header_def)
  with inv show "p = q" unfolding cache_inv_def by blast
next
  note inv = reachable_inv [OF assms(1)]
  fix g_vram fetched k r s1 ops s2 g_vram' fetched'
  assume a: "LookupSource gt g_vram fetched k s = Some (Inr (Some r, s1)) \<and>
            (\<forall>c \<in> set ops. quiet gt k c) \<and> run_ops gt ops s1 = Some (Inr s2)"
  then have l: "LookupSource gt g_vram fetched k s = Some (Inr (Some r, s1))"
    and q: "\<forall>c \<in> set ops. quiet gt k c"
    and r: "foldO (run_op gt) ops s1 = Some (Inr s2)"
    by (simp_all add: run_ops_def)
  from LookupSource_inv [OF inv l] obtain n t where i1: "cache_inv gt s1"
    and h1: "header s1 r = Some (k, n, t)" by blast
  from quiet_ops_keep [OF assms(2) i1 h1 q r] have "cache_inv gt s2" "header s2 r = Some (k, n, t)"
    by simp_all
  then show "LookupSource gt g_vram' fetched' k s2 = Some (Inr (Some r, s2))"
    by (rule LookupSource_hit)
qed

theorem lookup_again_same_source_witness:
  "\<exists>s1 s2. LookupSource psx_types zero_vram (Some texture0) key1 empty_cache =
              Some (Inr (Some 0, s1)) \<and>
           run_ops psx_types
             [OpInvalidatePage 0, OpLookupSource clut_vram (Some texture0) key2] s1 =
              Some (Inr s2) \<and>
           LookupSource psx_types clut_vram None key1 s2 = Some (Inr (Some 0, s2))"
proof -
  from lookup_key1_state [of zero_vram texture0] obtain s1 where
    l: "LookupSource psx_types zero_vram (Some texture0) key1 empty_cache =
          Some (Inr (Some 0, s1))"
    and i1: "cache_inv psx_types s1" by blast
  have "(0 :: u32) < NUM_PAGES" by (simp add: NUM_PAGES_32)
  from InvalidatePage_inv [OF i1 this] obtain sa where
    a: "InvalidatePage psx_types 0 s1 = Some (Inr sa)" and ia: "cache_inv psx_types sa"
    by blast
  from decode_key2 [of clut_vram] obtain texels where
    d: "DecodeTexture psx_types clut_vram (page key2) (palette key2) (mode key2) = Inr texels"
    by (auto simp: key2_def)
  have pk: "unat (page key2) < unat NUM_PAGES" by (simp add: key2_def unat_NUM_PAGES)
  have lt: "\<forall>c \<in> set (page_calls psx_types key2). c < NUM_PAGES"
    by (simp add: page_calls_key2 NUM_PAGES_32)
  have nd: "\<not> debug_build psx_types" by (simp add: psx_types_def)
  from LookupSource_total [OF ia pk d lt nd, of texture0] obtain r2 s2 where
    b: "LookupSource psx_types clut_vram (Some texture0) key2 sa = Some (Inr (Some r2, s2))"
    by blast
  from a b have run: "run_ops psx_types
             [OpInvalidatePage 0, OpLookupSource clut_vram (Some texture0) key2] s1 =
              Some (Inr s2)"
    by (simp add: run_ops_def)
  have q: "\<forall>c \<in> set [OpInvalidatePage 0, OpLookupSource clut_vram (Some texture0) key2].
             quiet psx_types key1 c"
    by (simp add: footprint_key1)
  from lookup_again_same_source [OF reachable.start palettes_in_vram_psx] l q run
  have "LookupSource psx_types clut_vram None key1 s2 = Some (Inr (Some 0, s2))"
    by blast
  with l run show ?thesis by blast
qed

text \<open>
  C7. When the device has no texture to give, \<^verbatim>\<open>CreateSource\<close> returns null and
  leaves the state of the cache unchanged; so in a reachable state a lookup of a key that
  no Source has returns null and leaves the state unchanged, and in any state a lookup
  that returns leaves the state unchanged.
\<close>

theorem allocation_failure_returns_null:
  "CreateSource gt g_vram None k s = Some (Inr (None, s)) \<and>
   (reachable gt s \<and> unat (page k) < unat NUM_PAGES \<and>
    (\<forall>p src. sources s p = Some src \<longrightarrow> key src \<noteq> k) \<longrightarrow>
      LookupSource gt g_vram None k s = Some (Inr (None, s))) \<and>
   (\<forall>r s'. LookupSource gt g_vram None k s = Some (Inr (r, s')) \<longrightarrow> s' = s)"
proof (intro conjI impI allI)
  show "CreateSource gt g_vram None k s = Some (Inr (None, s))" by simp
next
  assume a: "reachable gt s \<and> unat (page k) < unat NUM_PAGES \<and>
    (\<forall>p src. sources s p = Some src \<longrightarrow> key src \<noteq> k)"
  then have inv: "cache_inv gt s" and pk: "unat (page k) < unat NUM_PAGES"
    by (auto intro: reachable_inv)
  from LookupSource_cases [OF inv pk, of g_vram None] a
  show "LookupSource gt g_vram None k s = Some (Inr (None, s))" by auto
next
  fix r s'
  assume "LookupSource gt g_vram None k s = Some (Inr (r, s'))"
  then show "s' = s"
    by (auto simp: LookupSource_def bindO_Inr_iff split: sum.splits option.splits)
qed

theorem allocation_failure_returns_null_witness:
  "LookupSource psx_types zero_vram None key1 empty_cache = Some (Inr (None, empty_cache))"
proof -
  have "unat (page key1) < unat NUM_PAGES" by (simp add: key1_def unat_NUM_PAGES)
  moreover have "\<forall>p src. sources empty_cache p = Some src \<longrightarrow> key src \<noteq> key1"
    by (simp add: empty_cache_def)
  ultimately have "reachable psx_types empty_cache \<and> unat (page key1) < unat NUM_PAGES \<and>
    (\<forall>p src. sources empty_cache p = Some src \<longrightarrow> key src \<noteq> key1)"
    using reachable.start [of psx_types] by blast
  with allocation_failure_returns_null [of psx_types zero_vram key1 empty_cache]
  show ?thesis by blast
qed

text \<open>
  C8. In every reachable state, the Source a lookup returns, found in the list or
  new, is alive in the state the lookup leaves and has the key that was asked for.
\<close>

theorem LookupSource_returns_requested_key:
  assumes "reachable gt s"
    and "LookupSource gt g_vram fetched k s = Some (Inr (Some r, s'))"
  shows "\<exists>src. sources s' r = Some src \<and> key src = k"
proof -
  from LookupSource_inv [OF reachable_inv [OF assms(1)] assms(2)]
  obtain n t where "header s' r = Some (k, n, t)" by blast
  then show ?thesis by (auto simp: header_Some_iff)
qed

theorem LookupSource_returns_requested_key_witness:
  "\<exists>s' src. LookupSource psx_types clut_vram (Some texture0) key2 empty_cache =
               Some (Inr (Some 0, s')) \<and>
             sources s' 0 = Some src \<and> key src = key2"
proof -
  from lookup_key2_empty obtain s' where
    l: "LookupSource psx_types clut_vram (Some texture0) key2 empty_cache =
          Some (Inr (Some 0, s'))" by blast
  from LookupSource_returns_requested_key [OF reachable.start l] l show ?thesis by blast
qed

text \<open>
  C9. Whenever \<^verbatim>\<open>InvalidatePage\<close> returns, from whatever state and for whatever page
  number, it leaves the list of the page empty (head and tail null), and a second call
  right after it returns and leaves the whole state as it is: it frees no Source and
  gives no texture to the device. In every reachable state it returns for every page of
  video memory.
\<close>

theorem InvalidatePage_idempotent:
  "(\<forall>s'. InvalidatePage gt pn s = Some (Inr s') \<longrightarrow>
      head (m_page_sources s' (unat pn)) = None \<and>
      tail (m_page_sources s' (unat pn)) = None \<and>
      InvalidatePage gt pn s' = Some (Inr s')) \<and>
   (reachable gt s \<and> pn < NUM_PAGES \<longrightarrow> (\<exists>s'. InvalidatePage gt pn s = Some (Inr s')))"
proof (rule conjI)
  show "\<forall>s'. InvalidatePage gt pn s = Some (Inr s') \<longrightarrow>
      head (m_page_sources s' (unat pn)) = None \<and>
      tail (m_page_sources s' (unat pn)) = None \<and>
      InvalidatePage gt pn s' = Some (Inr s')"
    using InvalidatePage_Inr_again by blast
next
  show "reachable gt s \<and> pn < NUM_PAGES \<longrightarrow> (\<exists>s'. InvalidatePage gt pn s = Some (Inr s'))"
  proof
    assume "reachable gt s \<and> pn < NUM_PAGES"
    then have "cache_inv gt s" "pn < NUM_PAGES" by (auto intro: reachable_inv)
    from InvalidatePage_inv [OF this] show "\<exists>s'. InvalidatePage gt pn s = Some (Inr s')" by blast
  qed
qed

theorem InvalidatePage_idempotent_witness:
  "\<exists>s1 s2. LookupSource psx_types clut_vram (Some texture0) key2 empty_cache =
               Some (Inr (Some 0, s1)) \<and>
            InvalidatePage psx_types 17 s1 = Some (Inr s2) \<and>
            head (m_page_sources s2 17) = None \<and> tail (m_page_sources s2 17) = None \<and>
            InvalidatePage psx_types 17 s2 = Some (Inr s2)"
proof -
  from lookup_key2_empty obtain s1 where
    l: "LookupSource psx_types clut_vram (Some texture0) key2 empty_cache =
          Some (Inr (Some 0, s1))" by blast
  from reachable_lookup [OF reachable.start l] have r: "reachable psx_types s1" .
  have n: "(17 :: u32) < NUM_PAGES" by (simp add: NUM_PAGES_32)
  have u: "unat (17 :: u32) = 17" by simp
  note t = InvalidatePage_idempotent [of psx_types 17 s1, unfolded u]
  from t r n obtain s2 where a: "InvalidatePage psx_types 17 s1 = Some (Inr s2)" by blast
  with t have "head (m_page_sources s2 17) = None \<and> tail (m_page_sources s2 17) = None \<and>
            InvalidatePage psx_types 17 s2 = Some (Inr s2)" by blast
  with l a show ?thesis by blast
qed

text \<open>
  C10. In every reachable state, a Source that \<^verbatim>\<open>CreateSource\<close> returns has between
  1 and \<^verbatim>\<open>MAX_PAGE_REFS_PER_SOURCE\<close> (6) page references; its first page reference is in
  the list of the page of its key; and invalidating that page returns and deletes the
  Source.
\<close>

theorem CreateSource_page_refs:
  assumes "reachable gt s"
    and "CreateSource gt g_vram fetched k s = Some (Inr (Some r, s'))"
  shows "\<exists>src. sources s' r = Some src \<and>
           1 \<le> num_page_refs src \<and> num_page_refs src \<le> MAX_PAGE_REFS_PER_SOURCE \<and>
           node_list (page_refs src 0) = Some (unat (page k)) \<and>
           node_ref (page_refs src 0) = Some r \<and>
           (\<exists>s''. InvalidatePage gt (ucast (page k)) s' = Some (Inr s'') \<and>
                  sources s'' r = None)"
proof -
  from reachable_inv [OF assms(1)] obtain L where wf: "well_formed s L {}"
    unfolding cache_inv_def by blast
  from assms(2) obtain tex where f: "fetched = Some tex" by (cases fetched) auto
  from CreateSource_wf [OF wf assms(2) [unfolded f]] obtain L' b where
    r: "r = next_source s" and wf': "well_formed s' L' {}"
    and sb: "sources s' r = Some b" and p0: "0 < num_page_refs b"
    and t0: "tag s' (r, 0) = Some (Some r, Some (unat (page k)))"
    and pk: "unat (page k) < unat NUM_PAGES"
    by auto
  from wf' sb have le: "num_page_refs b \<le> MAX_PAGE_REFS_PER_SOURCE" unfolding well_formed_def by blast
  from t0 sb have nl: "node_list (page_refs b 0) = Some (unat (page k))"
    and nr: "node_ref (page_refs b 0) = Some r"
    by (auto simp: tag_Some_iff)
  from pk have pn: "(ucast (page k) :: u32) < NUM_PAGES"
    by (simp add: word_less_nat_alt unat_ucast_u8_u32)
  from well_formed_registered [OF wf' sb p0 t0] have "r \<in> fst ` set (L' (unat (page k)))" by force
  with InvalidatePage_wf [OF wf' pn, of gt] obtain s'' where
    "InvalidatePage gt (ucast (page k)) s' = Some (Inr s'')" "sources s'' r = None"
    by (auto simp: unat_ucast_u8_u32)
  with sb p0 le nl nr show ?thesis by auto
qed

theorem CreateSource_page_refs_witness:
  "\<exists>s' src s''. CreateSource psx_types clut_vram (Some texture0) key2 empty_cache =
               Some (Inr (Some 0, s')) \<and>
             sources s' 0 = Some src \<and>
             1 \<le> num_page_refs src \<and> num_page_refs src \<le> 6 \<and>
             node_list (page_refs src 0) = Some 17 \<and>
             InvalidatePage psx_types 17 s' = Some (Inr s'') \<and> sources s'' 0 = None"
proof -
  from lookup_key2_empty obtain s' where
    c: "CreateSource psx_types clut_vram (Some texture0) key2 empty_cache =
          Some (Inr (Some 0, s'))" by blast
  from CreateSource_page_refs [OF reachable.start c] c show ?thesis
    by (auto simp: key2_def MAX_PAGE_REFS_PER_SOURCE_def)
qed

end
